theory Spec2Isabelle
  imports Main "HOL-Library.Monad_Syntax"
begin

section \<open>JavaScript values\<close>

text \<open>
  The values that flow through \<^verbatim>\<open>src/spapi/updateListItems.js\<close>: \<^verbatim>\<open>undefined\<close>, strings,
  the XML document a successful request returns (\<open>Doc\<close>, named by its text), the jqXHR
  object of the \<open>i\<close>-th \<^verbatim>\<open>$.ajax\<close> call (\<open>Xhr i\<close>) and arrays.
\<close>

datatype jsval = Undefined | Str string | Doc string | Xhr nat | Arr "jsval list"

text \<open>
  Property access \<^verbatim>\<open>v[k]\<close>. On \<^verbatim>\<open>undefined\<close> it throws a TypeError (\<open>None\<close>); on a string
  it is the \<open>k\<close>-th character; on an array the \<open>k\<close>-th element; a document or a jqXHR has
  no numeric property. Out of range the value is \<^verbatim>\<open>undefined\<close>.
\<close>

fun js_get :: "jsval \<Rightarrow> nat \<Rightarrow> jsval option" where
  "js_get Undefined k = None"
| "js_get (Str s) k = Some (if k < length s then Str [s ! k] else Undefined)"
| "js_get (Doc d) k = Some Undefined"
| "js_get (Xhr i) k = Some Undefined"
| "js_get (Arr xs) k = Some (if k < length xs then xs ! k else Undefined)"

text \<open>Truthiness, as \<^verbatim>\<open>a || b\<close> tests it.\<close>

fun truthy :: "jsval \<Rightarrow> bool" where
  "truthy Undefined = False"
| "truthy (Str s) = (s \<noteq> [])"
| "truthy (Doc d) = True"
| "truthy (Xhr i) = True"
| "truthy (Arr xs) = True"

text \<open>\<^verbatim>\<open>a.push(v)\<close>: defined on arrays only.\<close>

fun js_push :: "jsval \<Rightarrow> jsval \<Rightarrow> jsval option" where
  "js_push (Arr xs) v = Some (Arr (xs @ [v]))"
| "js_push a v = None"

text \<open>\<^verbatim>\<open>/<\/Batch>/.test(s)\<close> and its like: the literal \<open>pat\<close> occurs somewhere in \<open>s\<close>.\<close>

fun re_test :: "string \<Rightarrow> string \<Rightarrow> bool" where
  "re_test pat [] = (pat = [])"
| "re_test pat (c # cs) = (take (length pat) (c # cs) = pat \<or> re_test pat cs)"

section \<open>Options, promises and the state of one call\<close>

text \<open>
  The options the dispatch reads (\<^verbatim>\<open>updateListItems.defaults\<close>, lines 405-415).
  \<open>updateOnError\<close> is carried because the documentation describes it. \<open>async\<close> is the
  truth value of \<^verbatim>\<open>opt.async\<close>, which line 145 hands to \<^verbatim>\<open>$.ajax\<close>.
\<close>

record config =
  batchSize :: int
  concurrency :: int
  updateOnError :: string
  async :: bool

definition defaults :: config where
  "defaults = \<lparr> batchSize = 100, concurrency = 2, updateOnError = ''Continue'', async = True \<rparr>"

text \<open>
  A jqXHR promise is pending, resolved with \<^verbatim>\<open>(data, textStatus, jqXHR)\<close> or rejected with
  \<^verbatim>\<open>(jqXHR, textStatus, errorThrown)\<close>. The outcome the transport delivers for a request is
  \<open>Done data textStatus\<close> or \<open>Fail textStatus errorThrown\<close>.
\<close>

datatype promise = Pending | Resolved "jsval list" | Rejected "jsval list"

datatype outcome = Done string string | Fail string string

fun settle :: "nat \<Rightarrow> outcome \<Rightarrow> promise" where
  "settle i (Done d st) = Resolved [Doc d, Str st, Xhr i]"
| "settle i (Fail st err) = Rejected [Xhr i, Str st, Str err]"

text \<open>The \<^verbatim>\<open>updateListItemsResponse\<close> object (lines 213-222).\<close>

record response =
  status :: string
  message :: jsval
  httpData :: jsval
  xhrRequest :: jsval

text \<open>The Deferred \<^verbatim>\<open>dfd\<close> the caller's promise belongs to.\<close>

datatype deferred = DfdPending | DfdResolved response | DfdRejected response

text \<open>
  The closure variables of the Deferred body (lines 96-100) and \<^verbatim>\<open>opt._updates\<close>.
  Two fields are observations, written but never read by the code's model:
  \<open>ajaxCalls\<close> lists the batch text of every \<^verbatim>\<open>$.ajax\<close> call in call order (the rest of the
  request, lines 143-160, is fixed text around it), and \<open>inFlightLog\<close> lists every value
  assigned to \<^verbatim>\<open>updatesInFlight\<close>.
\<close>

record dstate =
  updates :: "string list"
  updatePromisesList :: "promise list"
  batchProcessingDone :: bool
  updatesInFlight :: int
  dfd :: deferred
  ajaxCalls :: "string list"
  inFlightLog :: "int list"

definition initState :: "string list \<Rightarrow> dstate" where
  "initState q = \<lparr> updates = q, updatePromisesList = [], batchProcessingDone = False,
     updatesInFlight = 0, dfd = DfdPending, ajaxCalls = [], inFlightLog = [0] \<rparr>"

section \<open>The batch builder\<close>

text \<open>
  The \<^verbatim>\<open>while\<close> loop of \<^verbatim>\<open>getBatchUpdateList\<close> (lines 106-109): shift descriptors off the
  queue while the queue is not empty and \<^verbatim>\<open>count < opt.batchSize\<close>.
\<close>

fun shiftLoop :: "int \<Rightarrow> string list \<Rightarrow> int \<Rightarrow> string \<Rightarrow> string list \<times> string" where
  "shiftLoop b [] count xmlUpdateString = ([], xmlUpdateString)"
| "shiftLoop b (u # us) count xmlUpdateString =
     (if count < b then shiftLoop b us (count + 1) (xmlUpdateString @ u)
      else (u # us, xmlUpdateString))"

text \<open>Lines 111-113: the wrapper, added unless the text already holds a closing tag.\<close>

definition wrapBatch :: "string \<Rightarrow> string" where
  \<open>wrapBatch xmlUpdateString =
     (if \<not> re_test ''</Batch>'' xmlUpdateString
      then ''<Batch OnError="Continue">'' @ xmlUpdateString @ ''</Batch>''
      else xmlUpdateString)\<close>

definition getBatchUpdateList :: "config \<Rightarrow> dstate \<Rightarrow> string \<times> dstate" where
  "getBatchUpdateList cfg s =
     (let (us, xmlUpdateString) = shiftLoop (batchSize cfg) (updates s) 0 [];
          s1 = s\<lparr> updates := us \<rparr>;
          s2 = (if updates s1 = [] then s1\<lparr> batchProcessingDone := True \<rparr> else s1)
      in (wrapBatch xmlUpdateString, s2))"

section \<open>The response aggregator\<close>

text \<open>
  The collaborators \<^verbatim>\<open>doesMsgHaveError\<close> and \<^verbatim>\<open>getMsgError\<close> (\<^verbatim>\<open>../sputils\<close>) are
  parameters. \<open>whenPick\<close> stands for the one thing \<^verbatim>\<open>$.when\<close> leaves open: which rejected
  promise rejects the master when several are rejected already (it depends on the order
  in which the jQuery version at hand visits its arguments). \<open>syncOutcome i\<close> is the
  outcome the transport gives the \<open>i\<close>-th request of the call when the request is
  synchronous; the outcome of an asynchronous request arrives as an event.
\<close>

record env =
  doesMsgHaveError :: "jsval \<Rightarrow> bool"
  getMsgError :: "jsval \<Rightarrow> jsval"
  whenPick :: nat
  syncOutcome :: "nat \<Rightarrow> outcome"

fun isRejected :: "promise \<Rightarrow> bool" where
  "isRejected (Rejected args) = True"
| "isRejected p = False"

text \<open>Reading index \<open>k\<close> of a genuine array.\<close>

definition arr_get :: "jsval list \<Rightarrow> nat \<Rightarrow> jsval" where
  "arr_get xs k = (if k < length xs then xs ! k else Undefined)"

text \<open>
  \<^verbatim>\<open>$.when.apply($, promises)\<close>, as jQuery documents it: no argument gives a promise
  resolved with no value; one promise is passed through; of several, the master is
  rejected with the arguments of a rejected one as soon as there is one, and resolved
  once all are resolved, with one value per promise in the order the promises were
  passed: the array of the promise's values when it resolved with more than one.
\<close>

fun whenValue :: "promise \<Rightarrow> jsval" where
  "whenValue (Resolved args) = (if length args > 1 then Arr args else arr_get args 0)"
| "whenValue p = Undefined"

definition jq_when :: "nat \<Rightarrow> promise list \<Rightarrow> promise" where
  "jq_when k ps =
     (case ps of
        [] \<Rightarrow> Resolved []
      | [p] \<Rightarrow> p
      | p # p' # ps' \<Rightarrow>
          (let rej = filter isRejected ps
           in if rej \<noteq> [] then rej ! (k mod length rej)
              else if Pending \<in> set ps then Pending
              else Resolved (map whenValue ps)))"

text \<open>The callback of \<^verbatim>\<open>args.forEach\<close> (lines 230-250).\<close>

definition forEachBody :: "env \<Rightarrow> bool \<Rightarrow> bool \<Rightarrow> response \<Rightarrow> jsval \<Rightarrow> response option" where
  "forEachBody e isMultiRequest isHttpError r reqResponse =
     do {
       r1 \<leftarrow> (if isMultiRequest then
                do {
                  v \<leftarrow> js_get reqResponse (if isHttpError then 2 else 0);
                  h \<leftarrow> js_push (httpData r) v;
                  x \<leftarrow> js_get reqResponse 2;
                  xs \<leftarrow> js_push (xhrRequest r) x;
                  Some (r\<lparr> httpData := h, xhrRequest := xs \<rparr>)
                }
              else Some r);
       if isHttpError then
         do {
           m \<leftarrow> js_get reqResponse 1;
           Some (r1\<lparr> status := ''error'',
                     message := (if truthy m then m else Str ''HTTP error.'') \<rparr>)
         }
       else
         do {
           d \<leftarrow> js_get reqResponse 0;
           Some (if doesMsgHaveError e d
                 then r1\<lparr> status := ''error'', message := getMsgError e d \<rparr>
                 else r1)
         }
     }"

fun forEach :: "(response \<Rightarrow> jsval \<Rightarrow> response option) \<Rightarrow> jsval list \<Rightarrow> response \<Rightarrow> response option" where
  "forEach f [] r = Some r"
| "forEach f (x # xs) r = (case f r x of None \<Rightarrow> None | Some r' \<Rightarrow> forEach f xs r')"

text \<open>\<^verbatim>\<open>dfd.rejectWith\<close> and \<^verbatim>\<open>dfd.resolveWith\<close>: a settled Deferred stays as it is.\<close>

definition rejectWith :: "dstate \<Rightarrow> response \<Rightarrow> dstate" where
  "rejectWith s r = (if dfd s = DfdPending then s\<lparr> dfd := DfdRejected r \<rparr> else s)"

definition resolveWith :: "dstate \<Rightarrow> response \<Rightarrow> dstate" where
  "resolveWith s r = (if dfd s = DfdPending then s\<lparr> dfd := DfdResolved r \<rparr> else s)"

text \<open>
  \<^verbatim>\<open>processAjaxResponses\<close> (lines 184-260). A TypeError thrown by the loop leaves the
  Deferred as it was. \<^verbatim>\<open>opt.completefunc\<close> is taken at its default, \<^verbatim>\<open>null\<close>.
\<close>

definition processAjaxResponses :: "env \<Rightarrow> dstate \<Rightarrow> jsval list \<Rightarrow> bool \<Rightarrow> dstate" where
  "processAjaxResponses e s reqArgs isHttpError =
     (let args = reqArgs;
          isMultiRequest = (length (updatePromisesList s) > 1);
          response0 = \<lparr> status = ''success'',
                        message = Str ''Update Successful.'',
                        httpData = (if isMultiRequest then Arr []
                                    else if isHttpError then arr_get args 2 else arr_get args 0),
                        xhrRequest = (if isMultiRequest then Arr [] else arr_get args 2) \<rparr>;
          args1 = (if \<not> isMultiRequest then [Arr args] else args)
      in case forEach (forEachBody e isMultiRequest isHttpError) args1 response0 of
           None \<Rightarrow> s
         | Some r \<Rightarrow> if status r = ''error'' then rejectWith s r else resolveWith s r)"

text \<open>
  \<^verbatim>\<open>resolveUpdateListItems\<close> (lines 172-270): the \<^verbatim>\<open>then\<close> callback runs when the master
  resolves, the \<^verbatim>\<open>fail\<close> callback when it is rejected, each with the master's arguments.
  A callback attached to a promise that is settled already runs at once.
\<close>

definition resolveUpdateListItems :: "env \<Rightarrow> dstate \<Rightarrow> dstate" where
  "resolveUpdateListItems e s =
     (case jq_when (whenPick e) (updatePromisesList s) of
        Pending \<Rightarrow> s
      | Resolved args \<Rightarrow> processAjaxResponses e s args False
      | Rejected args \<Rightarrow> processAjaxResponses e s args True)"

section \<open>The dispatch scheduler\<close>

text \<open>
  The \<^verbatim>\<open>$.ajax\<close> call of \<^verbatim>\<open>execBatchUpdate\<close> (lines 142-161). The batch text is built while
  the request is composed, and the request is the \<open>i\<close>-th of the call. With \<^verbatim>\<open>async\<close> true
  the jqXHR returned is pending, and the completion arrives later as an event. With
  \<^verbatim>\<open>async\<close> false the request has completed when \<^verbatim>\<open>$.ajax\<close> returns: the jqXHR is settled
  already, with the outcome the transport gave.
\<close>

definition ajax :: "config \<Rightarrow> env \<Rightarrow> dstate \<Rightarrow> promise \<times> dstate" where
  "ajax cfg e s =
     (let (xml, s1) = getBatchUpdateList cfg s;
          i = length (ajaxCalls s1)
      in (if async cfg then Pending else settle i (syncOutcome e i),
          s1\<lparr> ajaxCalls := ajaxCalls s1 @ [xml] \<rparr>))"

text \<open>
  \<^verbatim>\<open>execBatchUpdate\<close> (lines 135-171) and \<^verbatim>\<open>onUpdateDone\<close> (lines 121-134) call each other,
  so they are the two entries of one function. \<^verbatim>\<open>updatePromise.always(onUpdateDone)\<close>
  (line 164) runs the callback at once when the promise is settled already, that is
  before \<^verbatim>\<open>updatePromisesList.push\<close> (line 165); for a pending promise the callback runs on
  the completion event. With synchronous requests the recursion need not end (a batch
  size below 1 never empties the queue): the result is then \<open>None\<close>.
\<close>

datatype entry = ExecBatchUpdate | OnUpdateDone

partial_function (option) sched :: "config \<Rightarrow> env \<Rightarrow> entry \<Rightarrow> dstate \<Rightarrow> dstate option" where
  "sched cfg e f s =
     (case f of
        ExecBatchUpdate \<Rightarrow>
          (if batchProcessingDone s \<or> updatesInFlight s \<ge> concurrency cfg then Some s
           else
             (let (updatePromise, s1) = ajax cfg e s;
                  s2 = s1\<lparr> updatesInFlight := updatesInFlight s1 + 1,
                            inFlightLog := inFlightLog s1 @ [updatesInFlight s1 + 1] \<rparr>
              in do {
                   s3 \<leftarrow> (if updatePromise = Pending then Some s2
                          else sched cfg e OnUpdateDone s2);
                   let s4 = s3\<lparr> updatePromisesList := updatePromisesList s3 @ [updatePromise] \<rparr>;
                   if \<not> batchProcessingDone s4 then sched cfg e ExecBatchUpdate s4 else Some s4
                 }))
      | OnUpdateDone \<Rightarrow>
          (let s1 = s\<lparr> updatesInFlight := updatesInFlight s - 1,
                       inFlightLog := inFlightLog s @ [updatesInFlight s - 1] \<rparr>
           in if updatesInFlight s1 = 0 \<and> batchProcessingDone s1
              then Some (resolveUpdateListItems e s1)
              else if updatesInFlight s1 < concurrency cfg then sched cfg e ExecBatchUpdate s1
              else Some s1))"

definition execBatchUpdate :: "config \<Rightarrow> env \<Rightarrow> dstate \<Rightarrow> dstate option" where
  "execBatchUpdate cfg e s = sched cfg e ExecBatchUpdate s"

definition onUpdateDone :: "config \<Rightarrow> env \<Rightarrow> dstate \<Rightarrow> dstate option" where
  "onUpdateDone cfg e s = sched cfg e OnUpdateDone s"

section \<open>One call and its completions\<close>

text \<open>
  The Deferred body ends by calling \<^verbatim>\<open>execBatchUpdate\<close> (line 272); \<open>q\<close> is
  \<^verbatim>\<open>opt._updates\<close>, the array of serialised updates.
\<close>

definition dispatch :: "config \<Rightarrow> env \<Rightarrow> string list \<Rightarrow> dstate option" where
  "dispatch cfg e q = execBatchUpdate cfg e (initState q)"

text \<open>
  After that the transport completes pending requests, one at a time and in any order:
  \<open>Complete i oc\<close> settles the promise of the \<open>i\<close>-th request with outcome \<open>oc\<close> and runs
  its \<^verbatim>\<open>always\<close> callback. A pending promise was pushed right after its request was sent,
  so the promise of the \<open>i\<close>-th request is the \<open>i\<close>-th of the list. An event for a request
  that is not pending cannot happen (\<open>None\<close>).
\<close>

datatype event = Complete nat outcome

fun complete :: "config \<Rightarrow> env \<Rightarrow> dstate \<Rightarrow> event \<Rightarrow> dstate option" where
  "complete cfg e s (Complete i oc) =
     (if i < length (updatePromisesList s) \<and> updatePromisesList s ! i = Pending
      then onUpdateDone cfg e
             (s\<lparr> updatePromisesList := (updatePromisesList s)[i := settle i oc] \<rparr>)
      else None)"

fun run :: "config \<Rightarrow> env \<Rightarrow> dstate \<Rightarrow> event list \<Rightarrow> dstate option" where
  "run cfg e s [] = Some s"
| "run cfg e s (ev # evs) =
     (case complete cfg e s ev of None \<Rightarrow> None | Some s' \<Rightarrow> run cfg e s' evs)"

text \<open>
  The closure variables once the entry point has returned and the completions \<open>evs\<close> have
  been handled; \<open>None\<close> when the entry point does not return or an event cannot happen.
\<close>

definition stateAfter :: "config \<Rightarrow> env \<Rightarrow> string list \<Rightarrow> event list \<Rightarrow> dstate option" where
  "stateAfter cfg e q evs =
     (case dispatch cfg e q of None \<Rightarrow> None | Some s \<Rightarrow> run cfg e s evs)"

section \<open>The options object and the store\<close>

text \<open>
  The caller's options object and the arrays it refers to are shared with the caller, so
  the entry point is modelled over a store: a value is a primitive or a reference, an
  object in the store is a plain object (its properties in insertion order) or an array,
  and an address is an index into the store. Allocation appends to the store.
\<close>

type_synonym addr = nat

datatype hval = VUndefined | VNull | VBool bool | VNum int | VStr string | VRef addr

datatype hobj = OObj "(string \<times> hval) list" | OArr "hval list"

type_synonym heap = "hobj list"

datatype jserror = TypeError

definition alloc :: "heap \<Rightarrow> hobj \<Rightarrow> heap \<times> addr" where
  "alloc h ob = (h @ [ob], length h)"

text \<open>Reading and writing a property of a plain object; absent properties read \<^verbatim>\<open>undefined\<close>.\<close>

definition getProp :: "(string \<times> hval) list \<Rightarrow> string \<Rightarrow> hval" where
  "getProp ps k = (case map_of ps k of None \<Rightarrow> VUndefined | Some v \<Rightarrow> v)"

fun setProp :: "(string \<times> hval) list \<Rightarrow> string \<Rightarrow> hval \<Rightarrow> (string \<times> hval) list" where
  "setProp [] k v = [(k, v)]"
| "setProp ((k', v') # ps) k v = (if k = k' then (k, v) # ps else (k', v') # setProp ps k v)"

definition propsAt :: "heap \<Rightarrow> addr \<Rightarrow> (string \<times> hval) list" where
  "propsAt h a = (if a < length h then (case h ! a of OObj ps \<Rightarrow> ps | OArr xs \<Rightarrow> []) else [])"

definition readProp :: "heap \<Rightarrow> addr \<Rightarrow> string \<Rightarrow> hval" where
  "readProp h a k = getProp (propsAt h a) k"

definition writeProp :: "heap \<Rightarrow> addr \<Rightarrow> string \<Rightarrow> hval \<Rightarrow> heap" where
  "writeProp h a k v = h[a := OObj (setProp (propsAt h a) k v)]"

text \<open>The elements of an array; \<open>None\<close> when the value is not an array (\<^verbatim>\<open>$.isArray\<close> is false).\<close>

definition arrayAt :: "heap \<Rightarrow> hval \<Rightarrow> hval list option" where
  "arrayAt h v =
     (case v of
        VRef a \<Rightarrow> (if a < length h then (case h ! a of OArr xs \<Rightarrow> Some xs | OObj ps \<Rightarrow> None) else None)
      | _ \<Rightarrow> None)"

fun vtruthy :: "hval \<Rightarrow> bool" where
  "vtruthy VUndefined = False"
| "vtruthy VNull = False"
| "vtruthy (VBool b) = b"
| "vtruthy (VNum n) = (n \<noteq> 0)"
| "vtruthy (VStr s) = (s \<noteq> [])"
| "vtruthy (VRef a) = True"

fun typeof :: "hval \<Rightarrow> string" where
  "typeof VUndefined = ''undefined''"
| "typeof VNull = ''object''"
| "typeof (VBool b) = ''boolean''"
| "typeof (VNum n) = ''number''"
| "typeof (VStr s) = ''string''"
| "typeof (VRef a) = ''object''"

text \<open>Decimal digits of a number, for array indices read as property names and for string concatenation.\<close>

fun digit :: "nat \<Rightarrow> char" where
  "digit n = (''0123456789'' ! (n mod 10))"

function decimal :: "nat \<Rightarrow> string" where
  "decimal n = (if n < 10 then [digit n] else decimal (n div 10) @ [digit n])"
  by pat_completeness auto
termination
  by (relation "measure (\<lambda>n. n)") auto

declare decimal.simps [simp del]

text \<open>
  What the environment supplies: the result of \<^verbatim>\<open>getSiteUrl()\<close>, the string an object or
  array converts to, the integer a value that is not a number converts to when the
  scheduler compares with it, and the string of a number of magnitude \<open>10\<^sup>2\<^sup>1\<close> or more,
  which JavaScript writes with an exponent (\<^verbatim>\<open>1e+21\<close>).
\<close>

record host =
  siteUrl :: string
  objToString :: "heap \<Rightarrow> addr \<Rightarrow> string"
  toInt :: "hval \<Rightarrow> int"
  expToString :: "int \<Rightarrow> string"

text \<open>
  \<^verbatim>\<open>'' + v\<close>: the string a value is concatenated as. A number is an integer here, written
  in decimal digits below \<open>10\<^sup>2\<^sup>1\<close>.
\<close>

definition toStr :: "host \<Rightarrow> heap \<Rightarrow> hval \<Rightarrow> string" where
  "toStr env h v =
     (case v of
        VUndefined \<Rightarrow> ''undefined''
      | VNull \<Rightarrow> ''null''
      | VBool b \<Rightarrow> (if b then ''true'' else ''false'')
      | VNum n \<Rightarrow> (if 10 ^ 21 \<le> \<bar>n\<bar> then expToString env n
                   else if n < 0 then ''-'' @ decimal (nat (- n)) else decimal (nat n))
      | VStr s \<Rightarrow> s
      | VRef a \<Rightarrow> objToString env h a)"

text \<open>
  The properties a \<^verbatim>\<open>for (name in v)\<close> loop visits, with their values: those of a plain
  object, the indices of an array or of a string, none for any other value.
\<close>

definition indexed :: "hval list \<Rightarrow> (string \<times> hval) list" where
  "indexed xs = map (\<lambda>i. (decimal i, xs ! i)) [0..<length xs]"

definition forInProps :: "heap \<Rightarrow> hval \<Rightarrow> (string \<times> hval) list" where
  "forInProps h v =
     (case v of
        VRef a \<Rightarrow> (if a < length h
                   then (case h ! a of OObj ps \<Rightarrow> ps | OArr xs \<Rightarrow> indexed xs)
                   else [])
      | VStr s \<Rightarrow> indexed (map (\<lambda>c. VStr [c]) s)
      | _ \<Rightarrow> [])"

text \<open>
  One source object of \<^verbatim>\<open>$.extend(target, ...)\<close>: every property whose value is not
  \<^verbatim>\<open>undefined\<close> is assigned to the target. The copy is shallow: a reference is copied
  as a reference.
\<close>

fun extendFrom :: "(string \<times> hval) list \<Rightarrow> (string \<times> hval) list \<Rightarrow> (string \<times> hval) list" where
  "extendFrom target [] = target"
| "extendFrom target ((k, v) # src) =
     extendFrom (if v \<noteq> VUndefined then setProp target k v else target) src"

text \<open>\<^verbatim>\<open>updateListItems.defaults\<close> (lines 405-415).\<close>

definition defaultsProps :: "(string \<times> hval) list" where
  "defaultsProps =
     [(''listName'', VStr ''''), (''webURL'', VStr ''''), (''async'', VBool True),
      (''completefunc'', VNull), (''updates'', VStr ''''), (''updateType'', VStr ''Update''),
      (''updateOnError'', VStr ''Continue''), (''batchSize'', VNum 100),
      (''concurrency'', VNum 2)]"

section \<open>Building the array of updates\<close>

text \<open>\<^verbatim>\<open>options.counter++\<close>; the counter is the number 1 when the call starts (line 80).\<close>

fun increment :: "hval \<Rightarrow> hval" where
  "increment (VNum n) = VNum (n + 1)"
| "increment v = v"

text \<open>
  The tail both helpers share (lines 316-325 and 350-359): a \<^verbatim>\<open>Method\<close> element is pushed
  on \<^verbatim>\<open>updates\<close> (the array at \<open>upd\<close>) and the counter of \<open>opt\<close> is incremented, unless no
  field was written.
\<close>

definition pushMethod :: "host \<Rightarrow> heap \<Rightarrow> addr \<Rightarrow> addr \<Rightarrow> string \<Rightarrow> heap" where
  \<open>pushMethod env h opt upd thisUpd =
     (if thisUpd \<noteq> [] then
        (let m = ''<Method ID="'' @ toStr env h (readProp h opt ''counter'') @ ''" Cmd="'' @
                 toStr env h (readProp h opt ''updateType'') @ ''">'' @ thisUpd @ ''</Method>'';
             h1 = (case arrayAt h (VRef upd) of
                     Some xs \<Rightarrow> h[upd := OArr (xs @ [VStr m])] | None \<Rightarrow> h)
         in writeProp h1 opt ''counter'' (increment (readProp h1 opt ''counter'')))
      else h)\<close>

text \<open>The field elements of one object (lines 303-312).\<close>

definition fieldsOf :: "host \<Rightarrow> heap \<Rightarrow> hval \<Rightarrow> string" where
  \<open>fieldsOf env h v =
     concat (map (\<lambda>(col, x). ''<Field Name="'' @ col @ ''">'' @ toStr env h x @ ''</Field>'')
                 (forInProps h v))\<close>

text \<open>\<^verbatim>\<open>processArrayOfObjects\<close> (lines 292-329), over the elements of the array.\<close>

fun processArrayOfObjects :: "host \<Rightarrow> heap \<Rightarrow> addr \<Rightarrow> addr \<Rightarrow> hval list \<Rightarrow> heap" where
  "processArrayOfObjects env h opt upd [] = h"
| "processArrayOfObjects env h opt upd (x # xs) =
     processArrayOfObjects env (pushMethod env h opt upd (fieldsOf env h x)) opt upd xs"

text \<open>\<^verbatim>\<open>processArrayOfArrays\<close> (lines 334-361): one update, a field for every element that is an array.\<close>

definition pairField :: "host \<Rightarrow> heap \<Rightarrow> hval \<Rightarrow> string" where
  \<open>pairField env h v =
     (case arrayAt h v of
        Some ys \<Rightarrow> ''<Field Name="'' @ toStr env h (if 0 < length ys then ys ! 0 else VUndefined) @ ''">'' @
                  toStr env h (if 1 < length ys then ys ! 1 else VUndefined) @ ''</Field>''
      | None \<Rightarrow> [])\<close>

definition processArrayOfArrays :: "host \<Rightarrow> heap \<Rightarrow> addr \<Rightarrow> addr \<Rightarrow> hval list \<Rightarrow> heap" where
  "processArrayOfArrays env h opt upd xs =
     pushMethod env h opt upd (concat (map (pairField env h) xs))"

text \<open>
  \<^verbatim>\<open>getUpdateArray\<close> (lines 287-402), called with \<open>opt\<close>. It returns the store and the
  address of the new array \<^verbatim>\<open>updates\<close>. In the first branch \<^verbatim>\<open>options.valuepairs.push\<close> is
  a call on whatever the caller supplied: it throws when that is not an array.
\<close>

definition getUpdateArray :: "host \<Rightarrow> heap \<Rightarrow> addr \<Rightarrow> jserror + (heap \<times> addr)" where
  "getUpdateArray env h0 opt =
     (let (h, upd) = alloc h0 (OArr []);
          updates = readProp h opt ''updates'';
          ofType = typeof updates
      in if \<not> vtruthy updates \<and> vtruthy (readProp h opt ''ID'') \<and> vtruthy (readProp h opt ''valuepairs'')
         then (case readProp h opt ''valuepairs'' of
                 VRef vp \<Rightarrow>
                   (case arrayAt h (VRef vp) of
                      Some xs \<Rightarrow>
                        (let (h1, pair) = alloc h (OArr [VStr ''ID'', readProp h opt ''ID'']);
                             h2 = h1[vp := OArr (xs @ [VRef pair])]
                         in Inr (processArrayOfArrays env h2 opt upd (xs @ [VRef pair]), upd))
                    | None \<Rightarrow> Inl TypeError)
               | _ \<Rightarrow> Inl TypeError)
         else if ofType = ''string''
         then Inr (h[upd := OArr [updates]], upd)
         else (case arrayAt h updates of
                 Some (x # xs) \<Rightarrow>
                   (if typeof x = ''object'' then Inr (processArrayOfObjects env h opt upd (x # xs), upd)
                    else if typeof x = ''string'' then Inr (h[upd := OArr (x # xs)], upd)
                    else if arrayAt h x \<noteq> None then Inr (processArrayOfArrays env h opt upd (x # xs), upd)
                    else Inr (h, upd))
               | _ \<Rightarrow> Inr (h, upd)))"

section \<open>The entry point\<close>

text \<open>
  Lines 80-93 of \<^verbatim>\<open>updateListItems\<close>: the new object \<open>opt\<close> is the merge of the defaults,
  the caller's options and \<^verbatim>\<open>{counter: 1}\<close> (\<^verbatim>\<open>$.extend({}, ...)\<close>, \<open>mergedOptions\<close>); then \<^verbatim>\<open>webURL\<close> and \<^verbatim>\<open>updateType\<close> are set on
  it and the array of updates is built. \<^verbatim>\<open>opt.webURL.charAt\<close> throws when a truthy
  \<^verbatim>\<open>webURL\<close> is not a string.
\<close>

definition mergedOptions :: "heap \<Rightarrow> hval \<Rightarrow> (string \<times> hval) list" where
  "mergedOptions h options =
     extendFrom (extendFrom (extendFrom [] defaultsProps) (forInProps h options))
       [(''counter'', VNum 1)]"

definition prepare :: "host \<Rightarrow> heap \<Rightarrow> hval \<Rightarrow> jserror + (heap \<times> addr)" where
  "prepare env h0 options =
     (let (h1, opt) = alloc h0 (OObj (mergedOptions h0 options));
          webURL = readProp h1 opt ''webURL''
      in case (if \<not> vtruthy webURL then Inr (writeProp h1 opt ''webURL'' (VStr (siteUrl env)))
               else (case webURL of
                       VStr s \<Rightarrow> Inr (if last s \<noteq> CHR ''/'' then writeProp h1 opt ''webURL'' (VStr (s @ ''/''))
                                      else h1)
                     | _ \<Rightarrow> Inl TypeError)) of
           Inl err \<Rightarrow> Inl err
         | Inr h2 \<Rightarrow>
             (let batchCmd = readProp h2 opt ''batchCmd'';
                  h3 = writeProp h2 opt ''updateType''
                         (if vtruthy batchCmd then batchCmd else readProp h2 opt ''updateType'')
              in case getUpdateArray env h3 opt of
                   Inl err \<Rightarrow> Inl err
                 | Inr (h4, upd) \<Rightarrow> Inr (writeProp h4 opt ''_updates'' (VRef upd), opt)))"

text \<open>
  The Deferred body works on \<open>opt\<close> alone: it reads \<^verbatim>\<open>batchSize\<close>, \<^verbatim>\<open>concurrency\<close> and
  \<^verbatim>\<open>async\<close> and shifts elements off the array \<^verbatim>\<open>opt._updates\<close>. \<open>optConfig\<close> and \<open>optQueue\<close> give the
  scheduler its configuration and queue; \<open>storeAfter\<close> is the store once the scheduler
  has reached state \<open>s\<close>: of the store built by \<open>prepare\<close>, only the array of updates has
  changed, by the elements shifted off.
\<close>

definition optConfig :: "host \<Rightarrow> heap \<Rightarrow> addr \<Rightarrow> config" where
  "optConfig env h opt =
     \<lparr> batchSize = (case readProp h opt ''batchSize'' of VNum n \<Rightarrow> n | v \<Rightarrow> toInt env v),
       concurrency = (case readProp h opt ''concurrency'' of VNum n \<Rightarrow> n | v \<Rightarrow> toInt env v),
       updateOnError = toStr env h (readProp h opt ''updateOnError''),
       async = vtruthy (readProp h opt ''async'') \<rparr>"

definition optQueue :: "host \<Rightarrow> heap \<Rightarrow> addr \<Rightarrow> string list" where
  "optQueue env h opt =
     (case arrayAt h (readProp h opt ''_updates'') of
        Some xs \<Rightarrow> map (toStr env h) xs | None \<Rightarrow> [])"

definition storeAfter :: "heap \<Rightarrow> addr \<Rightarrow> dstate \<Rightarrow> heap" where
  "storeAfter h opt s =
     (case readProp h opt ''_updates'' of
        VRef upd \<Rightarrow>
          (case arrayAt h (VRef upd) of
             Some xs \<Rightarrow> h[upd := OArr (drop (length xs - length (updates s)) xs)]
           | None \<Rightarrow> h)
      | _ \<Rightarrow> h)"

text \<open>
  The entry point and the completions after it: the store the caller sees once the
  events \<open>evs\<close> have been handled (\<open>None\<close> as for \<open>stateAfter\<close>), or the error the entry
  point throws.
\<close>

definition updateListItems :: "host \<Rightarrow> env \<Rightarrow> heap \<Rightarrow> hval \<Rightarrow> event list \<Rightarrow> jserror + heap option" where
  "updateListItems env e h0 options evs =
     (case prepare env h0 options of
        Inl err \<Rightarrow> Inl err
      | Inr (h, opt) \<Rightarrow>
          Inr (map_option (storeAfter h opt)
                (stateAfter (optConfig env h opt) e (optQueue env h opt) evs)))"

section \<open>Notions the theorems are stated with\<close>

text \<open>The bound on the in-flight counter: its current value and every value it ever had.\<close>

definition bounded :: "config \<Rightarrow> dstate \<Rightarrow> bool" where
  "bounded cfg s \<longleftrightarrow>
     updatesInFlight s \<le> concurrency cfg \<and> (\<forall>v \<in> set (inFlightLog s). v \<le> concurrency cfg)"

text \<open>
  A sample environment: a document whose text starts with \<open>ERR\<close> encodes an error, and
  its message is the text; of the synchronous requests the second fails.
\<close>

definition sampleEnv :: env where
  "sampleEnv = \<lparr> doesMsgHaveError = (\<lambda>v. case v of Doc d \<Rightarrow> take 3 d = ''ERR'' | _ \<Rightarrow> False),
                  getMsgError = (\<lambda>v. case v of Doc d \<Rightarrow> Str d | _ \<Rightarrow> Undefined),
                  whenPick = 0,
                  syncOutcome = (\<lambda>i. if i = 1 then Fail ''error'' ''Not Found''
                                     else Done ''ok'' ''success'') \<rparr>"

definition oneAtATime :: config where
  "oneAtATime = defaults\<lparr> batchSize := 1 \<rparr>"

text \<open>
  The \<open>j\<close>-th run of \<open>n\<close> descriptors of the queue \<open>q\<close>, the batch text built from it, and
  the number of batches of a queue of \<open>len\<close> descriptors: \<open>ceil (len / n)\<close>, but one batch
  for the empty queue.
\<close>

definition batchAt :: "nat \<Rightarrow> 'a list \<Rightarrow> nat \<Rightarrow> 'a list" where
  "batchAt n q j = take n (drop (j * n) q)"

definition batchText :: "nat \<Rightarrow> string list \<Rightarrow> nat \<Rightarrow> string" where
  "batchText n q j = wrapBatch (concat (batchAt n q j))"

definition batchCount :: "nat \<Rightarrow> nat \<Rightarrow> nat" where
  "batchCount len n = max 1 ((len + n - 1) div n)"

text \<open>The number of requests that have not completed.\<close>

definition pendingCount :: "promise list \<Rightarrow> nat" where
  "pendingCount ps = length (filter (\<lambda>p. p = Pending) ps)"

text \<open>The outcome the event list delivers for request \<open>i\<close>, if any.\<close>

fun outcomeOf :: "event list \<Rightarrow> nat \<Rightarrow> outcome option" where
  "outcomeOf [] i = None"
| "outcomeOf (Complete j oc # evs) i = (if i = j then Some oc else outcomeOf evs i)"

text \<open>
  What holds of the closure variables whenever control is with the scheduler, stated
  against the queue \<open>q\<close> the call started from.
\<close>

definition core :: "config \<Rightarrow> string list \<Rightarrow> dstate \<Rightarrow> bool" where
  "core cfg q s \<longleftrightarrow>
     (let n = nat (batchSize cfg); L = length (updatePromisesList s)
      in ajaxCalls s = map (batchText n q) [0..<L] \<and>
         updates s = drop (L * n) q \<and>
         (batchProcessingDone s \<longleftrightarrow> 1 \<le> L \<and> length q \<le> L * n) \<and>
         (L \<le> 1 \<or> (L - 1) * n < length q) \<and>
         updatesInFlight s = int (pendingCount (updatePromisesList s)))"

text \<open>The Deferred that \<^verbatim>\<open>resolveUpdateListItems\<close> leaves for a list of promises.\<close>

definition aggregate :: "env \<Rightarrow> promise list \<Rightarrow> deferred" where
  "aggregate e ps = dfd (resolveUpdateListItems e ((initState [])\<lparr> updatePromisesList := ps \<rparr>))"

text \<open>The promise list agrees with the completions delivered so far.\<close>

fun evIndex :: "event \<Rightarrow> nat" where
  "evIndex (Complete i oc) = i"

definition hist :: "event list \<Rightarrow> promise list \<Rightarrow> bool" where
  "hist evs ps \<longleftrightarrow>
     (\<forall>i < length ps. ps ! i = (case outcomeOf evs i of None \<Rightarrow> Pending | Some oc \<Rightarrow> settle i oc)) \<and>
     (\<forall>i \<ge> length ps. outcomeOf evs i = None) \<and>
     length evs + pendingCount ps = length ps \<and>
     distinct (map evIndex evs)"

text \<open>
  What holds between two events, for a valid configuration: the window is full unless the
  queue is exhausted, and the Deferred is settled exactly when nothing is in flight.
\<close>

definition quiescent :: "config \<Rightarrow> env \<Rightarrow> string list \<Rightarrow> event list \<Rightarrow> dstate \<Rightarrow> bool" where
  "quiescent cfg e q evs s \<longleftrightarrow>
     core cfg q s \<and> hist evs (updatePromisesList s) \<and>
     (batchProcessingDone s \<or> concurrency cfg \<le> updatesInFlight s) \<and>
     (if updatesInFlight s = 0
      then dfd s = aggregate e (updatePromisesList s) \<and> dfd s \<noteq> DfdPending
      else dfd s = DfdPending)"

text \<open>
  The spec's \<open>ceil (n / b)\<close>, and the test whether a response field is a sequence.
\<close>

definition ceilDiv :: "nat \<Rightarrow> nat \<Rightarrow> nat" where
  "ceilDiv len n = (len + n - 1) div n"

fun isArr :: "jsval \<Rightarrow> bool" where
  "isArr (Arr xs) = True"
| "isArr v = False"

text \<open>The payload the event list delivers for request \<open>i\<close>.\<close>

definition dataOf :: "event list \<Rightarrow> nat \<Rightarrow> jsval" where
  "dataOf evs i = (case outcomeOf evs i of Some (Done d st) \<Rightarrow> Doc d | _ \<Rightarrow> Undefined)"

text \<open>Two stores agree below \<open>n\<close> except at the addresses in \<open>S\<close>.\<close>

definition agree :: "nat \<Rightarrow> nat set \<Rightarrow> heap \<Rightarrow> heap \<Rightarrow> bool" where
  "agree n S h h' \<longleftrightarrow> length h \<le> length h' \<and> (\<forall>b < n. b \<notin> S \<longrightarrow> h' ! b = h ! b)"

text \<open>A sample store and host for the theorems below.\<close>

definition sampleStore :: heap where
  "sampleStore =
     [OObj [(''listName'', VStr ''Tasks''), (''ID'', VNum 3), (''valuepairs'', VRef 1)],
      OArr [VRef 2],
      OArr [VStr ''Title'', VStr ''New title'']]"

definition sampleHost :: host where
  "sampleHost = \<lparr> siteUrl = ''http://sp/'', objToString = (\<lambda>h a. ''[object Object]''),
                   toInt = (\<lambda>v. 0), expToString = (\<lambda>n. ''1e+21'') \<rparr>"

text \<open>
  Two states with the same schedule: they differ at most in how requests were settled and
  in the caller's promise. \<open>awaited\<close>: the in-flight counter counts the pending requests,
  every request sent has a promise, and the caller's promise is settled only when nothing
  is in flight and the queue is exhausted.
\<close>

definition sameSchedule :: "dstate \<Rightarrow> dstate \<Rightarrow> bool" where
  "sameSchedule s s' \<longleftrightarrow>
     updates s = updates s' \<and> batchProcessingDone s = batchProcessingDone s' \<and>
     updatesInFlight s = updatesInFlight s' \<and> ajaxCalls s = ajaxCalls s' \<and>
     inFlightLog s = inFlightLog s' \<and>
     map (\<lambda>p. p = Pending) (updatePromisesList s) = map (\<lambda>p. p = Pending) (updatePromisesList s')"

definition awaited :: "dstate \<Rightarrow> bool" where
  "awaited s \<longleftrightarrow>
     updatesInFlight s = int (pendingCount (updatePromisesList s)) \<and>
     length (ajaxCalls s) = length (updatePromisesList s) \<and>
     (dfd s \<noteq> DfdPending \<longrightarrow> updatesInFlight s = 0 \<and> batchProcessingDone s)"

text \<open>
  What holds of the requests sent whenever control is with the scheduler, whether the
  requests are asynchronous or not: the \<open>L\<close> requests sent carry the first \<open>L\<close> batches of
  the queue \<open>q\<close>, the rest of the queue is still to be sent, and the queue is marked
  exhausted exactly when it is.
\<close>

definition built :: "config \<Rightarrow> string list \<Rightarrow> dstate \<Rightarrow> bool" where
  "built cfg q s \<longleftrightarrow>
     (let n = nat (batchSize cfg); L = length (ajaxCalls s)
      in ajaxCalls s = map (batchText n q) [0..<L] \<and>
         updates s = drop (L * n) q \<and>
         (batchProcessingDone s \<longleftrightarrow> 1 \<le> L \<and> length q \<le> L * n) \<and>
         (L \<le> 1 \<or> (L - 1) * n < length q))"

section \<open>The scheduler with asynchronous requests\<close>

text \<open>
  With \<^verbatim>\<open>async\<close> true every \<^verbatim>\<open>$.ajax\<close> call returns a pending promise, no callback runs
  inside \<^verbatim>\<open>execBatchUpdate\<close>, and the recursion ends because the in-flight counter grows
  towards the bound. The scheduler is then the total functions below (lemmas
  \<open>execBatchUpdate_async\<close> to \<open>stateAfter_async\<close>), on which the proofs about
  asynchronous calls work.
\<close>

definition asyncLaunch :: "config \<Rightarrow> dstate \<Rightarrow> dstate" where
  "asyncLaunch cfg s =
     (let (xml, s1) = getBatchUpdateList cfg s
      in s1\<lparr> ajaxCalls := ajaxCalls s1 @ [xml],
             updatesInFlight := updatesInFlight s1 + 1,
             inFlightLog := inFlightLog s1 @ [updatesInFlight s1 + 1],
             updatePromisesList := updatePromisesList s1 @ [Pending] \<rparr>)"

function asyncExec :: "config \<Rightarrow> dstate \<Rightarrow> dstate" where
  "asyncExec cfg s =
     (if batchProcessingDone s \<or> updatesInFlight s \<ge> concurrency cfg then s
      else let s1 = asyncLaunch cfg s
           in if \<not> batchProcessingDone s1 then asyncExec cfg s1 else s1)"
  by pat_completeness auto
termination
  by (relation "measure (\<lambda>(cfg, s). nat (concurrency cfg - updatesInFlight s))")
     (auto simp: asyncLaunch_def getBatchUpdateList_def Let_def split: prod.splits)

declare asyncExec.simps [simp del]

definition asyncDone :: "config \<Rightarrow> env \<Rightarrow> dstate \<Rightarrow> dstate" where
  "asyncDone cfg e s =
     (let s1 = s\<lparr> updatesInFlight := updatesInFlight s - 1,
                  inFlightLog := inFlightLog s @ [updatesInFlight s - 1] \<rparr>
      in if updatesInFlight s1 = 0 \<and> batchProcessingDone s1 then resolveUpdateListItems e s1
         else if updatesInFlight s1 < concurrency cfg then asyncExec cfg s1
         else s1)"

definition asyncDispatch :: "config \<Rightarrow> string list \<Rightarrow> dstate" where
  "asyncDispatch cfg q = asyncExec cfg (initState q)"

fun asyncComplete :: "config \<Rightarrow> env \<Rightarrow> dstate \<Rightarrow> event \<Rightarrow> dstate option" where
  "asyncComplete cfg e s (Complete i oc) =
     (if i < length (updatePromisesList s) \<and> updatePromisesList s ! i = Pending
      then Some (asyncDone cfg e
                   (s\<lparr> updatePromisesList := (updatePromisesList s)[i := settle i oc] \<rparr>))
      else None)"

fun asyncRun :: "config \<Rightarrow> env \<Rightarrow> dstate \<Rightarrow> event list \<Rightarrow> dstate option" where
  "asyncRun cfg e s [] = Some s"
| "asyncRun cfg e s (ev # evs) =
     (case asyncComplete cfg e s ev of None \<Rightarrow> None | Some s' \<Rightarrow> asyncRun cfg e s' evs)"

section \<open>The two entries of the scheduler\<close>

text \<open>
  The defining equation of \<open>sched\<close>, one entry at a time, and the induction it gives over
  the calls of a run that returns: whatever holds when \<^verbatim>\<open>execBatchUpdate\<close> stops, is kept
  by a launch and is kept by the callback, holds of every call that returns.
\<close>

lemma execBatchUpdate_unfold:
  "execBatchUpdate cfg e s =
     (if batchProcessingDone s \<or> updatesInFlight s \<ge> concurrency cfg then Some s
      else
        (let (updatePromise, s1) = ajax cfg e s;
             s2 = s1\<lparr> updatesInFlight := updatesInFlight s1 + 1,
                       inFlightLog := inFlightLog s1 @ [updatesInFlight s1 + 1] \<rparr>
         in do {
              s3 \<leftarrow> (if updatePromise = Pending then Some s2 else onUpdateDone cfg e s2);
              let s4 = s3\<lparr> updatePromisesList := updatePromisesList s3 @ [updatePromise] \<rparr>;
              if \<not> batchProcessingDone s4 then execBatchUpdate cfg e s4 else Some s4
            }))"
  unfolding execBatchUpdate_def onUpdateDone_def
  by (subst sched.simps) simp

lemma onUpdateDone_unfold:
  "onUpdateDone cfg e s =
     (let s1 = s\<lparr> updatesInFlight := updatesInFlight s - 1,
                  inFlightLog := inFlightLog s @ [updatesInFlight s - 1] \<rparr>
      in if updatesInFlight s1 = 0 \<and> batchProcessingDone s1
         then Some (resolveUpdateListItems e s1)
         else if updatesInFlight s1 < concurrency cfg then execBatchUpdate cfg e s1
         else Some s1)"
  unfolding execBatchUpdate_def onUpdateDone_def
  by (subst sched.simps) simp

lemma sched_stop:
  "batchProcessingDone t \<or> concurrency cfg \<le> updatesInFlight t \<Longrightarrow>
   sched cfg e ExecBatchUpdate t = Some t"
  by (subst sched.simps) simp

lemma sched_launch:
  assumes "\<not> (batchProcessingDone t \<or> concurrency cfg \<le> updatesInFlight t)"
      and "ajax cfg e t = (p, t1)"
      and "t2 = t1\<lparr> updatesInFlight := updatesInFlight t1 + 1,
                     inFlightLog := inFlightLog t1 @ [updatesInFlight t1 + 1] \<rparr>"
      and "(if p = Pending then Some t2 else sched cfg e OnUpdateDone t2) = Some t3"
      and "t4 = t3\<lparr> updatePromisesList := updatePromisesList t3 @ [p] \<rparr>"
      and "(if \<not> batchProcessingDone t4 then sched cfg e ExecBatchUpdate t4 else Some t4) = Some t'"
  shows "sched cfg e ExecBatchUpdate t = Some t'"
  using assms(1,4,6) unfolding assms(3,5)
  by (subst sched.simps) (simp add: assms(2) Let_def)

lemma sched_callback:
  assumes "t1 = t\<lparr> updatesInFlight := updatesInFlight t - 1,
                   inFlightLog := inFlightLog t @ [updatesInFlight t - 1] \<rparr>"
      and "(if updatesInFlight t1 = 0 \<and> batchProcessingDone t1
            then Some (resolveUpdateListItems e t1)
            else if updatesInFlight t1 < concurrency cfg then sched cfg e ExecBatchUpdate t1
            else Some t1) = Some t'"
  shows "sched cfg e OnUpdateDone t = Some t'"
  using assms(2) unfolding assms(1)
  by (subst sched.simps) (simp add: Let_def)

lemma sched_induct [consumes 1, case_names stop launch callback]:
  assumes r: "sched cfg e f s = Some s'"
    and stop: "\<And>s. batchProcessingDone s \<or> concurrency cfg \<le> updatesInFlight s \<Longrightarrow>
                 Q ExecBatchUpdate s s"
    and launch: "\<And>s p s1 s2 s3 s4 s'.
         \<not> (batchProcessingDone s \<or> concurrency cfg \<le> updatesInFlight s) \<Longrightarrow>
         ajax cfg e s = (p, s1) \<Longrightarrow>
         s2 = s1\<lparr> updatesInFlight := updatesInFlight s1 + 1,
                   inFlightLog := inFlightLog s1 @ [updatesInFlight s1 + 1] \<rparr> \<Longrightarrow>
         (if p = Pending then s3 = s2 else Q OnUpdateDone s2 s3) \<Longrightarrow>
         s4 = s3\<lparr> updatePromisesList := updatePromisesList s3 @ [p] \<rparr> \<Longrightarrow>
         (if \<not> batchProcessingDone s4 then Q ExecBatchUpdate s4 s' else s' = s4) \<Longrightarrow>
         Q ExecBatchUpdate s s'"
    and callback: "\<And>s s1 s'.
         s1 = s\<lparr> updatesInFlight := updatesInFlight s - 1,
                  inFlightLog := inFlightLog s @ [updatesInFlight s - 1] \<rparr> \<Longrightarrow>
         (if updatesInFlight s1 = 0 \<and> batchProcessingDone s1 then s' = resolveUpdateListItems e s1
          else if updatesInFlight s1 < concurrency cfg then Q ExecBatchUpdate s1 s'
          else s' = s1) \<Longrightarrow>
         Q OnUpdateDone s s'"
  shows "Q f s s'"
proof -
  define R where "R = (\<lambda>cfg' e' f s y. cfg' = cfg \<and> e' = e \<longrightarrow> Q f s y)"
  have "R cfg' e' f s s'" if "sched cfg' e' f s = Some s'" for cfg' e'
    using that
  proof (induction cfg' e' f s s' rule: sched.raw_induct[rotated, consumes 1])
    case (1 sch cfg' e' f s y)
    show ?case unfolding R_def
    proof (intro impI, elim conjE)
      assume c: "cfg' = cfg" and e: "e' = e"
      have ih: "Q f s y" if "sch cfg e f s = Some y" for f s y
        using "1.IH"[OF that] by (simp add: R_def)
      note b = "1.hyps"[unfolded c e]
      show "Q f s y"
      proof (cases f)
        case ExecBatchUpdate
        show ?thesis
        proof (cases "batchProcessingDone s \<or> concurrency cfg \<le> updatesInFlight s")
          case True
          then have "y = s" using b ExecBatchUpdate by simp
          then show ?thesis using stop[OF True] ExecBatchUpdate by simp
        next
          case False
          obtain p s1 where aj: "ajax cfg e s = (p, s1)" by (cases "ajax cfg e s")
          define s2 where "s2 = s1\<lparr> updatesInFlight := updatesInFlight s1 + 1,
                   inFlightLog := inFlightLog s1 @ [updatesInFlight s1 + 1] \<rparr>"
          have b': "(if p = Pending then Some s2 else sch cfg e OnUpdateDone s2) \<bind>
                (\<lambda>s3. let s4 = s3 \<lparr>updatePromisesList := updatePromisesList s3 @ [p]\<rparr>
                      in if \<not> batchProcessingDone s4
                         then sch cfg e ExecBatchUpdate s4 else Some s4) = Some y"
            using b ExecBatchUpdate False aj
            by (cases "p = Pending") (simp_all add: s2_def Let_def)
          then obtain s3 where
              s3: "(if p = Pending then Some s2 else sch cfg e OnUpdateDone s2) = Some s3"
            and rest: "(let s4 = s3 \<lparr>updatePromisesList := updatePromisesList s3 @ [p]\<rparr>
                      in if \<not> batchProcessingDone s4
                         then sch cfg e ExecBatchUpdate s4 else Some s4) = Some y"
            by (auto simp: bind_eq_Some_conv)
          define s4 where "s4 = s3 \<lparr>updatePromisesList := updatePromisesList s3 @ [p]\<rparr>"
          have q3: "if p = Pending then s3 = s2 else Q OnUpdateDone s2 s3"
            using s3 ih by (auto split: if_splits)
          have q4: "if \<not> batchProcessingDone s4 then Q ExecBatchUpdate s4 y else y = s4"
            using rest ih unfolding s4_def[symmetric] Let_def by (auto split: if_splits)
          show ?thesis
            using launch[OF False aj s2_def q3 s4_def q4] ExecBatchUpdate by simp
        qed
      next
        case OnUpdateDone
        define s1 where "s1 = s\<lparr> updatesInFlight := updatesInFlight s - 1,
                  inFlightLog := inFlightLog s @ [updatesInFlight s - 1] \<rparr>"
        have b': "(if updatesInFlight s1 = 0 \<and> batchProcessingDone s1
             then Some (resolveUpdateListItems e s1)
             else if updatesInFlight s1 < concurrency cfg
                  then sch cfg e ExecBatchUpdate s1 else Some s1) = Some y"
          using b OnUpdateDone unfolding s1_def Let_def by simp
        have "if updatesInFlight s1 = 0 \<and> batchProcessingDone s1 then y = resolveUpdateListItems e s1
          else if updatesInFlight s1 < concurrency cfg then Q ExecBatchUpdate s1 y
          else y = s1"
          using b' ih by (auto split: if_splits)
        from callback[OF s1_def this] show ?thesis using OnUpdateDone by simp
      qed
    qed
  qed
  from this[OF r] show ?thesis by (simp add: R_def)
qed

section \<open>Asynchronous requests: the scheduler is a total function\<close>

lemma asyncExec_unfold:
  "asyncExec cfg s =
     (if batchProcessingDone s \<or> updatesInFlight s \<ge> concurrency cfg then s
      else if \<not> batchProcessingDone (asyncLaunch cfg s) then asyncExec cfg (asyncLaunch cfg s)
      else asyncLaunch cfg s)"
  by (subst asyncExec.simps) (simp add: Let_def)

lemma ajax_async:
  "async cfg \<Longrightarrow>
   ajax cfg e s = (Pending, (snd (getBatchUpdateList cfg s))
      \<lparr> ajaxCalls := ajaxCalls (snd (getBatchUpdateList cfg s)) @ [fst (getBatchUpdateList cfg s)] \<rparr>)"
  by (simp add: ajax_def Let_def split: prod.splits)

lemma asyncLaunch_ajax:
  "asyncLaunch cfg s =
     (snd (getBatchUpdateList cfg s))
       \<lparr> ajaxCalls := ajaxCalls (snd (getBatchUpdateList cfg s)) @ [fst (getBatchUpdateList cfg s)],
          updatesInFlight := updatesInFlight (snd (getBatchUpdateList cfg s)) + 1,
          inFlightLog := inFlightLog (snd (getBatchUpdateList cfg s)) @
                           [updatesInFlight (snd (getBatchUpdateList cfg s)) + 1],
          updatePromisesList := updatePromisesList (snd (getBatchUpdateList cfg s)) @ [Pending] \<rparr>"
  by (simp add: asyncLaunch_def Let_def split: prod.splits)

lemma execBatchUpdate_async_step:
  assumes "async cfg" and "\<not> (batchProcessingDone s \<or> updatesInFlight s \<ge> concurrency cfg)"
  shows "execBatchUpdate cfg e s =
           (if \<not> batchProcessingDone (asyncLaunch cfg s)
            then execBatchUpdate cfg e (asyncLaunch cfg s) else Some (asyncLaunch cfg s))"
  using assms(2)
  by (subst execBatchUpdate_unfold) (simp add: ajax_async[OF assms(1)] asyncLaunch_ajax Let_def)

lemma execBatchUpdate_async:
  "async cfg \<Longrightarrow> execBatchUpdate cfg e s = Some (asyncExec cfg s)"
proof (induction cfg s rule: asyncExec.induct)
  case (1 cfg s)
  show ?case
  proof (cases "batchProcessingDone s \<or> updatesInFlight s \<ge> concurrency cfg")
    case True
    then show ?thesis
      by (subst execBatchUpdate_unfold, subst asyncExec.simps) simp
  next
    case False
    show ?thesis
    proof (cases "batchProcessingDone (asyncLaunch cfg s)")
      case True
      then show ?thesis using False
        by (subst execBatchUpdate_async_step[OF "1.prems" False], subst asyncExec.simps)
           (simp add: Let_def)
    next
      case nd: False
      have "execBatchUpdate cfg e (asyncLaunch cfg s) = Some (asyncExec cfg (asyncLaunch cfg s))"
        using "1.IH"[OF False refl nd "1.prems"] .
      then show ?thesis using False nd
        by (subst execBatchUpdate_async_step[OF "1.prems" False], subst asyncExec.simps)
           (simp add: Let_def)
    qed
  qed
qed

lemma onUpdateDone_async:
  "async cfg \<Longrightarrow> onUpdateDone cfg e s = Some (asyncDone cfg e s)"
  by (subst onUpdateDone_unfold) (simp add: asyncDone_def Let_def execBatchUpdate_async)

lemma complete_async:
  "async cfg \<Longrightarrow> complete cfg e s ev = asyncComplete cfg e s ev"
  by (cases ev) (simp add: onUpdateDone_async)

lemma run_async:
  "async cfg \<Longrightarrow> run cfg e s evs = asyncRun cfg e s evs"
  by (induction evs arbitrary: s) (simp_all add: complete_async split: option.splits)

lemma dispatch_async:
  "async cfg \<Longrightarrow> dispatch cfg e q = Some (asyncDispatch cfg q)"
  by (simp add: dispatch_def asyncDispatch_def execBatchUpdate_async)

lemma stateAfter_async:
  "async cfg \<Longrightarrow> stateAfter cfg e q evs = asyncRun cfg e (asyncDispatch cfg q) evs"
  by (simp add: stateAfter_def dispatch_async run_async)

section \<open>Frames of the aggregator, and the bound with asynchronous requests\<close>

lemma rejectWith_frame: "rejectWith s r = s\<lparr> dfd := dfd (rejectWith s r) \<rparr>"
  by (simp add: rejectWith_def)

lemma resolveWith_frame: "resolveWith s r = s\<lparr> dfd := dfd (resolveWith s r) \<rparr>"
  by (simp add: resolveWith_def)

lemma processAjaxResponses_cases:
  "processAjaxResponses e s args h = s \<or>
   (\<exists>r. processAjaxResponses e s args h = rejectWith s r) \<or>
   (\<exists>r. processAjaxResponses e s args h = resolveWith s r)"
  unfolding processAjaxResponses_def Let_def
  by (cases "forEach (forEachBody e (length (updatePromisesList s) > 1) h)
           (if \<not> (length (updatePromisesList s) > 1) then [Arr args] else args)
           \<lparr> status = ''success'',
                        message = Str ''Update Successful.'',
                        httpData = (if (length (updatePromisesList s) > 1) then Arr []
                                    else if h then arr_get args 2 else arr_get args 0),
                        xhrRequest = (if (length (updatePromisesList s) > 1) then Arr [] else arr_get args 2) \<rparr>")
     auto

lemma processAjaxResponses_frame:
  "processAjaxResponses e s args h = s\<lparr> dfd := dfd (processAjaxResponses e s args h) \<rparr>"
  using processAjaxResponses_cases[of e s args h] rejectWith_frame resolveWith_frame
  by (metis dstate.surjective dstate.update_convs(5))

lemma resolveUpdateListItems_frame:
  "resolveUpdateListItems e s = s\<lparr> dfd := dfd (resolveUpdateListItems e s) \<rparr>"
proof (cases "jq_when (whenPick e) (updatePromisesList s)")
  case Pending
  then show ?thesis by (simp add: resolveUpdateListItems_def)
next
  case (Resolved args)
  then show ?thesis
    using processAjaxResponses_frame[of e s args False]
    by (simp add: resolveUpdateListItems_def)
next
  case (Rejected args)
  then show ?thesis
    using processAjaxResponses_frame[of e s args True]
    by (simp add: resolveUpdateListItems_def)
qed

lemma asyncLaunch_fields:
  "updatesInFlight (asyncLaunch cfg s) = updatesInFlight s + 1"
  "inFlightLog (asyncLaunch cfg s) = inFlightLog s @ [updatesInFlight s + 1]"
  "dfd (asyncLaunch cfg s) = dfd s"
  "updatePromisesList (asyncLaunch cfg s) = updatePromisesList s @ [Pending]"
  by (simp_all add: asyncLaunch_def getBatchUpdateList_def Let_def split: prod.splits)

lemma bounded_launch:
  "bounded cfg s \<Longrightarrow> updatesInFlight s < concurrency cfg \<Longrightarrow> bounded cfg (asyncLaunch cfg s)"
  by (simp add: bounded_def asyncLaunch_fields)

lemma bounded_exec: "bounded cfg s \<Longrightarrow> bounded cfg (asyncExec cfg s)"
proof (induction cfg s rule: asyncExec.induct)
  case (1 cfg s)
  show ?case
  proof (cases "batchProcessingDone s \<or> updatesInFlight s \<ge> concurrency cfg")
    case True
    then show ?thesis using "1.prems" by (simp add: asyncExec.simps)
  next
    case False
    then have b: "bounded cfg (asyncLaunch cfg s)"
      using "1.prems" by (simp add: bounded_launch)
    show ?thesis
    proof (cases "batchProcessingDone (asyncLaunch cfg s)")
      case True
      then show ?thesis using False b
        by (subst asyncExec.simps) (simp add: Let_def)
    next
      case nd: False
      have "bounded cfg (asyncExec cfg (asyncLaunch cfg s))"
        using "1.IH"[OF False refl nd b] .
      then show ?thesis using False nd
        by (subst asyncExec.simps) (simp add: Let_def)
    qed
  qed
qed

lemma bounded_asyncDone:
  assumes "bounded cfg s"
  shows "bounded cfg (asyncDone cfg e s)"
proof -
  define s1 where "s1 = s\<lparr> updatesInFlight := updatesInFlight s - 1,
                           inFlightLog := inFlightLog s @ [updatesInFlight s - 1] \<rparr>"
  have b1: "bounded cfg s1" using assms by (simp add: bounded_def s1_def)
  have b2: "bounded cfg (resolveUpdateListItems e s1)"
    using b1 by (subst resolveUpdateListItems_frame) (simp add: bounded_def)
  have "asyncDone cfg e s =
          (if updatesInFlight s1 = 0 \<and> batchProcessingDone s1 then resolveUpdateListItems e s1
           else if updatesInFlight s1 < concurrency cfg then asyncExec cfg s1 else s1)"
    unfolding asyncDone_def s1_def Let_def ..
  then show ?thesis
    using b1 b2 bounded_exec[OF b1] by presburger
qed

lemma bounded_complete:
  "bounded cfg s \<Longrightarrow> asyncComplete cfg e s ev = Some s' \<Longrightarrow> bounded cfg s'"
proof (cases ev)
  case (Complete i oc)
  assume b: "bounded cfg s" and c: "asyncComplete cfg e s ev = Some s'"
  have "bounded cfg (s\<lparr> updatePromisesList := (updatePromisesList s)[i := settle i oc] \<rparr>)"
    using b by (simp add: bounded_def)
  from bounded_asyncDone[OF this] c Complete show "bounded cfg s'"
    by (auto split: if_splits)
qed

lemma bounded_run:
  "bounded cfg s \<Longrightarrow> asyncRun cfg e s evs = Some s' \<Longrightarrow> bounded cfg s'"
proof (induction evs arbitrary: s)
  case Nil
  then show ?case by simp
next
  case (Cons ev evs)
  then show ?case
    by (auto split: option.splits dest: bounded_complete)
qed

lemma bounded_dispatch: "0 \<le> concurrency cfg \<Longrightarrow> bounded cfg (asyncDispatch cfg q)"
  unfolding asyncDispatch_def
  by (rule bounded_exec) (simp add: bounded_def initState_def)

section \<open>The batch builder pulls runs of the queue\<close>

lemma shiftLoop_take_drop:
  "shiftLoop b us count xml =
     (drop (nat (b - count)) us, xml @ concat (take (nat (b - count)) us))"
proof (induction us arbitrary: count xml)
  case Nil
  then show ?case by simp
next
  case (Cons u us)
  show ?case
  proof (cases "count < b")
    case True
    then have "nat (b - count) = Suc (nat (b - (count + 1)))" by simp
    then show ?thesis using True Cons.IH[of "count + 1" "xml @ u"] by simp
  next
    case False
    then show ?thesis by simp
  qed
qed

lemma getBatchUpdateList_eq:
  "getBatchUpdateList cfg s =
     (wrapBatch (concat (take (nat (batchSize cfg)) (updates s))),
      s\<lparr> updates := drop (nat (batchSize cfg)) (updates s),
         batchProcessingDone := batchProcessingDone s \<or> drop (nat (batchSize cfg)) (updates s) = [] \<rparr>)"
  by (simp add: getBatchUpdateList_def shiftLoop_take_drop Let_def)

lemma asyncLaunch_eq:
  "asyncLaunch cfg s =
     s\<lparr> updates := drop (nat (batchSize cfg)) (updates s),
        batchProcessingDone := batchProcessingDone s \<or> drop (nat (batchSize cfg)) (updates s) = [],
        ajaxCalls := ajaxCalls s @ [wrapBatch (concat (take (nat (batchSize cfg)) (updates s)))],
        updatesInFlight := updatesInFlight s + 1,
        inFlightLog := inFlightLog s @ [updatesInFlight s + 1],
        updatePromisesList := updatePromisesList s @ [Pending] \<rparr>"
  by (simp add: asyncLaunch_def getBatchUpdateList_eq)

lemma pendingCount_append [simp]:
  "pendingCount (ps @ ps') = pendingCount ps + pendingCount ps'"
  by (simp add: pendingCount_def)

lemma pendingCount_replicate [simp]: "pendingCount (replicate m Pending) = m"
  by (simp add: pendingCount_def)

lemma core_launch:
  assumes "core cfg q s" and "\<not> batchProcessingDone s" and "1 \<le> batchSize cfg"
  shows "core cfg q (asyncLaunch cfg s)"
proof -
  define n where "n = nat (batchSize cfg)"
  define L where "L = length (updatePromisesList s)"
  have n: "1 \<le> n" using assms(3) by (simp add: n_def)
  have c: "ajaxCalls s = map (batchText n q) [0..<L]" "updates s = drop (L * n) q"
     "batchProcessingDone s \<longleftrightarrow> 1 \<le> L \<and> length q \<le> L * n"
     "L \<le> 1 \<or> (L - 1) * n < length q"
     "updatesInFlight s = int (pendingCount (updatePromisesList s))"
    using assms(1) by (simp_all add: core_def Let_def n_def L_def)
  have nd: "L = 0 \<or> L * n < length q" using assms(2) c(3) by auto
  have a: "ajaxCalls (asyncLaunch cfg s) = map (batchText n q) [0..<Suc L]"
    by (simp add: asyncLaunch_eq c batchText_def batchAt_def n_def[symmetric])
  have u: "updates (asyncLaunch cfg s) = drop (Suc L * n) q"
    by (simp add: asyncLaunch_eq c n_def[symmetric] add.commute)
  have d: "batchProcessingDone (asyncLaunch cfg s) \<longleftrightarrow> length q \<le> Suc L * n"
    using assms(2) by (simp add: asyncLaunch_eq c(2) n_def[symmetric] add.commute)
  have l: "length (updatePromisesList (asyncLaunch cfg s)) = Suc L"
    by (simp add: asyncLaunch_eq L_def)
  have f: "updatesInFlight (asyncLaunch cfg s) = int (pendingCount (updatePromisesList (asyncLaunch cfg s)))"
    by (simp add: asyncLaunch_eq c(5) pendingCount_def)
  have g: "Suc L \<le> 1 \<or> (Suc L - 1) * n < length q" using nd by auto
  show ?thesis
    unfolding core_def Let_def n_def[symmetric] l
    using a u d f g by simp
qed

lemma asyncLaunch_promises: "updatePromisesList (asyncLaunch cfg s) = updatePromisesList s @ [Pending]"
  by (simp add: asyncLaunch_eq)

lemma asyncLaunch_dfd: "dfd (asyncLaunch cfg s) = dfd s"
  by (simp add: asyncLaunch_eq)

lemma asyncExec_core:
  assumes "1 \<le> batchSize cfg"
  shows "core cfg q s \<Longrightarrow>
         core cfg q (asyncExec cfg s) \<and>
         dfd (asyncExec cfg s) = dfd s \<and>
         (\<exists>m. updatePromisesList (asyncExec cfg s) = updatePromisesList s @ replicate m Pending) \<and>
         (batchProcessingDone (asyncExec cfg s) \<or>
          concurrency cfg \<le> updatesInFlight (asyncExec cfg s))"
  using assms
proof (induction cfg s rule: asyncExec.induct)
  case (1 cfg s)
  show ?case
  proof (cases "batchProcessingDone s \<or> updatesInFlight s \<ge> concurrency cfg")
    case True
    then have "asyncExec cfg s = s" by (simp add: asyncExec_unfold)
    then show ?thesis using "1.prems"(1) True
      by (auto intro: exI[of _ 0])
  next
    case False
    then have nd: "\<not> batchProcessingDone s" by simp
    have cl: "core cfg q (asyncLaunch cfg s)"
      using core_launch[OF "1.prems"(1) nd "1.prems"(2)] .
    show ?thesis
    proof (cases "batchProcessingDone (asyncLaunch cfg s)")
      case True
      then have "asyncExec cfg s = asyncLaunch cfg s"
        using False by (simp add: asyncExec_unfold)
      then show ?thesis using cl True
        by (auto simp: asyncLaunch_promises asyncLaunch_dfd intro: exI[of _ 1])
    next
      case nd1: False
      have eq: "asyncExec cfg s = asyncExec cfg (asyncLaunch cfg s)"
        using False nd1 by (subst asyncExec_unfold) simp
      from "1.IH"[OF False refl nd1 cl "1.prems"(2)]
      obtain m where ih:
        "core cfg q (asyncExec cfg (asyncLaunch cfg s))"
        "dfd (asyncExec cfg (asyncLaunch cfg s)) = dfd (asyncLaunch cfg s)"
        "updatePromisesList (asyncExec cfg (asyncLaunch cfg s)) =
           updatePromisesList (asyncLaunch cfg s) @ replicate m Pending"
        "batchProcessingDone (asyncExec cfg (asyncLaunch cfg s)) \<or>
          concurrency cfg \<le> updatesInFlight (asyncExec cfg (asyncLaunch cfg s))"
        by blast
      have "updatePromisesList (asyncExec cfg s) =
              updatePromisesList s @ replicate (Suc m) Pending"
        unfolding eq ih(3) asyncLaunch_promises by (simp add: replicate_app_Cons_same)
      then show ?thesis
        using ih(1,2,4) unfolding eq asyncLaunch_dfd by blast
    qed
  qed
qed

section \<open>Every call keeps the bound on the in-flight counter\<close>

lemma settle_not_Pending [simp]: "settle i oc \<noteq> Pending" "Pending \<noteq> settle i oc"
  by (cases oc; simp)+

lemma ajax_eq:
  "ajax cfg e s =
     (if async cfg then Pending
      else settle (length (ajaxCalls s)) (syncOutcome e (length (ajaxCalls s))),
      s\<lparr> updates := drop (nat (batchSize cfg)) (updates s),
         batchProcessingDone := batchProcessingDone s \<or> drop (nat (batchSize cfg)) (updates s) = [],
         ajaxCalls := ajaxCalls s @ [wrapBatch (concat (take (nat (batchSize cfg)) (updates s)))] \<rparr>)"
  by (simp add: ajax_def getBatchUpdateList_eq Let_def)

lemma ajax_fields:
  assumes "ajax cfg e s = (p, s1)"
  shows "updatesInFlight s1 = updatesInFlight s" "inFlightLog s1 = inFlightLog s"
    "dfd s1 = dfd s" "updatePromisesList s1 = updatePromisesList s"
    "length (ajaxCalls s1) = Suc (length (ajaxCalls s))"
    "(p = Pending) = async cfg"
    "\<not> async cfg \<Longrightarrow> p = settle (length (ajaxCalls s)) (syncOutcome e (length (ajaxCalls s)))"
  using assms by (auto simp: ajax_eq split: if_splits)

lemma resolveUpdateListItems_fields:
  "updates (resolveUpdateListItems e s) = updates s"
  "updatePromisesList (resolveUpdateListItems e s) = updatePromisesList s"
  "batchProcessingDone (resolveUpdateListItems e s) = batchProcessingDone s"
  "updatesInFlight (resolveUpdateListItems e s) = updatesInFlight s"
  "ajaxCalls (resolveUpdateListItems e s) = ajaxCalls s"
  "inFlightLog (resolveUpdateListItems e s) = inFlightLog s"
  by (subst resolveUpdateListItems_frame, simp)+

lemma bounded_sched:
  assumes "sched cfg e f s = Some s'" and "bounded cfg s"
  shows "bounded cfg s'"
proof -
  have "bounded cfg s \<longrightarrow> bounded cfg s'" using assms(1)
  proof (induction rule: sched_induct)
    case (stop s)
    show ?case by simp
  next
    case (launch s p s1 s2 s3 s4 s')
    show ?case
    proof
      assume b: "bounded cfg s"
      note f = ajax_fields[OF launch.hyps(2)]
      have b2: "bounded cfg s2" using b launch.hyps(1) f(1,2) by (simp add: bounded_def launch.hyps(3))
      have b3: "bounded cfg s3" using launch.IH(1) b2 by (auto split: if_splits)
      have b4: "bounded cfg s4" using b3 by (simp add: bounded_def launch.hyps(4))
      show "bounded cfg s'" using launch.IH(2) b4 by (auto split: if_splits)
    qed
  next
    case (callback s s1 s')
    show ?case
    proof
      assume b: "bounded cfg s"
      have b1: "bounded cfg s1" using b by (simp add: bounded_def callback.hyps(1))
      have b2: "bounded cfg (resolveUpdateListItems e s1)"
        using b1 by (subst resolveUpdateListItems_frame) (simp add: bounded_def)
      show "bounded cfg s'" using callback.IH b1 b2 by (auto split: if_splits)
    qed
  qed
  then show ?thesis using assms(2) by simp
qed

lemma bounded_stateAfter:
  assumes "0 \<le> concurrency cfg" and "stateAfter cfg e q evs = Some s"
  shows "bounded cfg s"
proof -
  from assms(2) obtain s0 where d: "dispatch cfg e q = Some s0" and r: "run cfg e s0 evs = Some s"
    by (auto simp: stateAfter_def split: option.splits)
  have b0: "bounded cfg s0"
    using d assms(1) bounded_sched[of cfg e ExecBatchUpdate "initState q" s0]
    by (simp add: dispatch_def execBatchUpdate_def bounded_def initState_def)
  show ?thesis using r b0
  proof (induction evs arbitrary: s0)
    case Nil
    then show ?case by simp
  next
    case (Cons ev evs)
    from Cons.prems(1) obtain s1 where c: "complete cfg e s0 ev = Some s1"
      and r1: "run cfg e s1 evs = Some s" by (auto split: option.splits)
    obtain i oc where ev: "ev = Complete i oc" by (cases ev)
    have "bounded cfg (s0\<lparr> updatePromisesList := (updatePromisesList s0)[i := settle i oc] \<rparr>)"
      using Cons.prems(2) by (simp add: bounded_def)
    then have "bounded cfg s1"
      using c ev bounded_sched[of cfg e OnUpdateDone _ s1]
      by (auto simp: onUpdateDone_def split: if_splits)
    from Cons.IH[OF r1 this] show ?case .
  qed
qed

section \<open>What the aggregator computes\<close>

lemma js_get_Arr: "js_get (Arr a) k = Some (arr_get a k)"
  by (simp add: arr_get_def)

lemma forEachBody_multi_ok:
  "forEachBody e True False \<lparr> status = st, message = m, httpData = Arr hs, xhrRequest = Arr xs \<rparr> (Arr a) =
     Some \<lparr> status = (if doesMsgHaveError e (arr_get a 0) then ''error'' else st),
            message = (if doesMsgHaveError e (arr_get a 0) then getMsgError e (arr_get a 0) else m),
            httpData = Arr (hs @ [arr_get a 0]),
            xhrRequest = Arr (xs @ [arr_get a 2]) \<rparr>"
  by (simp add: forEachBody_def js_get_Arr del: js_get.simps)

lemma forEach_multi_ok:
  "forEach (forEachBody e True False) (map Arr argss)
      \<lparr> status = st, message = m, httpData = Arr hs, xhrRequest = Arr xs \<rparr> =
   Some \<lparr> status = (if filter (doesMsgHaveError e) (map (\<lambda>a. arr_get a 0) argss) = [] then st else ''error''),
          message = (if filter (doesMsgHaveError e) (map (\<lambda>a. arr_get a 0) argss) = [] then m
                     else getMsgError e (last (filter (doesMsgHaveError e) (map (\<lambda>a. arr_get a 0) argss)))),
          httpData = Arr (hs @ map (\<lambda>a. arr_get a 0) argss),
          xhrRequest = Arr (xs @ map (\<lambda>a. arr_get a 2) argss) \<rparr>"
proof (induction argss arbitrary: st m hs xs)
  case Nil
  then show ?case by simp
next
  case (Cons a argss)
  show ?case
    by (simp only: list.map forEach.simps forEachBody_multi_ok option.case Cons.IH)
       (simp)
qed

lemma processAjaxResponses_dfd:
  assumes "dfd s = DfdPending"
  shows "dfd (processAjaxResponses e s args h) =
         dfd (processAjaxResponses e ((initState [])\<lparr> updatePromisesList := updatePromisesList s \<rparr>) args h)"
  using assms
  by (simp add: processAjaxResponses_def Let_def rejectWith_def resolveWith_def initState_def
           split: option.split)

lemma resolveUpdateListItems_aggregate:
  assumes "dfd s = DfdPending"
  shows "dfd (resolveUpdateListItems e s) = aggregate e (updatePromisesList s)"
proof (cases "jq_when (whenPick e) (updatePromisesList s)")
  case Pending
  then show ?thesis using assms
    by (simp add: aggregate_def resolveUpdateListItems_def initState_def)
next
  case (Resolved args)
  then show ?thesis using processAjaxResponses_dfd[OF assms]
    by (simp add: aggregate_def resolveUpdateListItems_def)
next
  case (Rejected args)
  then show ?thesis using processAjaxResponses_dfd[OF assms]
    by (simp add: aggregate_def resolveUpdateListItems_def)
qed

lemma aggregate_single_done:
  "aggregate e [Resolved [Doc d, Str st, Xhr i]] =
     (if doesMsgHaveError e (Doc d)
      then DfdRejected \<lparr> status = ''error'', message = getMsgError e (Doc d),
                         httpData = Doc d, xhrRequest = Xhr i \<rparr>
      else DfdResolved \<lparr> status = ''success'', message = Str ''Update Successful.'',
                         httpData = Doc d, xhrRequest = Xhr i \<rparr>)"
  by (simp add: aggregate_def resolveUpdateListItems_def jq_when_def processAjaxResponses_def
        initState_def arr_get_def forEachBody_def rejectWith_def resolveWith_def)

lemma aggregate_single_fail:
  "aggregate e [Rejected [Xhr i, Str st, Str err]] =
     DfdRejected \<lparr> status = ''error'',
                   message = (if st \<noteq> [] then Str st else Str ''HTTP error.''),
                   httpData = Str err, xhrRequest = Str err \<rparr>"
  by (simp add: aggregate_def resolveUpdateListItems_def jq_when_def processAjaxResponses_def
        initState_def arr_get_def forEachBody_def rejectWith_def resolveWith_def)

lemma jq_when_multi:
  assumes "2 \<le> length ps"
  shows "jq_when k ps =
     (if filter isRejected ps \<noteq> [] then filter isRejected ps ! (k mod length (filter isRejected ps))
      else if Pending \<in> set ps then Pending
      else Resolved (map whenValue ps))"
proof -
  obtain p p' ps' where "ps = p # p' # ps'"
    using assms by (cases ps; cases "tl ps") auto
  then show ?thesis by (simp add: jq_when_def Let_def)
qed

lemma aggregate_multi_done:
  assumes "2 \<le> length argss" and "\<forall>a \<in> set argss. 1 < length a"
  shows "aggregate e (map Resolved argss) =
     (if filter (doesMsgHaveError e) (map (\<lambda>a. arr_get a 0) argss) = []
      then DfdResolved \<lparr> status = ''success'', message = Str ''Update Successful.'',
                         httpData = Arr (map (\<lambda>a. arr_get a 0) argss),
                         xhrRequest = Arr (map (\<lambda>a. arr_get a 2) argss) \<rparr>
      else DfdRejected \<lparr> status = ''error'',
                         message = getMsgError e (last (filter (doesMsgHaveError e) (map (\<lambda>a. arr_get a 0) argss))),
                         httpData = Arr (map (\<lambda>a. arr_get a 0) argss),
                         xhrRequest = Arr (map (\<lambda>a. arr_get a 2) argss) \<rparr>)"
proof -
  have nr: "filter isRejected (map Resolved argss) = []"
    by (induction argss) auto
  have np: "Pending \<notin> set (map Resolved argss)" by auto
  have wv: "map whenValue (map Resolved argss) = map Arr argss"
    using assms(2) by (induction argss) auto
  have w: "jq_when (whenPick e) (map Resolved argss) = Resolved (map Arr argss)"
    using jq_when_multi[of "map Resolved argss" "whenPick e"] assms(1) nr np wv by simp
  have m: "Suc 0 < length argss" using assms(1) by simp
  show ?thesis
    unfolding aggregate_def resolveUpdateListItems_def
    by (simp add: w processAjaxResponses_def initState_def m forEach_multi_ok Let_def
          rejectWith_def resolveWith_def)
qed

lemma aggregate_multi_fail:
  assumes "2 \<le> length ps" and "filter isRejected ps \<noteq> []"
      and "\<forall>p \<in> set ps. isRejected p \<longrightarrow> (\<exists>i st err. p = Rejected [Xhr i, Str st, Str err])"
  shows "\<exists>i st err. Rejected [Xhr i, Str st, Str err] \<in> set ps \<and>
           aggregate e ps =
             DfdRejected \<lparr> status = ''error'',
               message = (if 1 < length err then Str [err ! 1] else Str ''HTTP error.''),
               httpData = Arr [Undefined, if 2 < length st then Str [st ! 2] else Undefined,
                               if 2 < length err then Str [err ! 2] else Undefined],
               xhrRequest = Arr [Undefined, if 2 < length st then Str [st ! 2] else Undefined,
                                 if 2 < length err then Str [err ! 2] else Undefined] \<rparr>"
proof -
  define p where "p = filter isRejected ps ! (whenPick e mod length (filter isRejected ps))"
  have "p \<in> set (filter isRejected ps)"
    unfolding p_def using assms(2) by (intro nth_mem) simp
  then have pin: "p \<in> set ps" and pr: "isRejected p" by auto
  then obtain i st err where p: "p = Rejected [Xhr i, Str st, Str err]"
    using assms(3) by blast
  have w: "jq_when (whenPick e) ps = Rejected [Xhr i, Str st, Str err]"
    using jq_when_multi[OF assms(1), of "whenPick e"] assms(2) p p_def by simp
  have m: "Suc 0 < length ps" using assms(1) by simp
  have "aggregate e ps =
             DfdRejected \<lparr> status = ''error'',
               message = (if 1 < length err then Str [err ! 1] else Str ''HTTP error.''),
               httpData = Arr [Undefined, if 2 < length st then Str [st ! 2] else Undefined,
                               if 2 < length err then Str [err ! 2] else Undefined],
               xhrRequest = Arr [Undefined, if 2 < length st then Str [st ! 2] else Undefined,
                                 if 2 < length err then Str [err ! 2] else Undefined] \<rparr>"
    unfolding aggregate_def resolveUpdateListItems_def
    by (simp add: w processAjaxResponses_def initState_def m forEachBody_def Let_def
          rejectWith_def resolveWith_def)
  then show ?thesis using pin p by blast
qed

section \<open>The invariant of a run\<close>

lemma outcomeOf_snoc:
  "outcomeOf (evs @ [Complete j oc]) i =
     (case outcomeOf evs i of Some x \<Rightarrow> Some x | None \<Rightarrow> if i = j then Some oc else None)"
proof (induction evs)
  case Nil
  then show ?case by simp
next
  case (Cons ev evs)
  then show ?case by (cases ev) simp
qed

lemma outcomeOf_None_iff: "outcomeOf evs i = None \<longleftrightarrow> i \<notin> evIndex ` set evs"
proof (induction evs)
  case Nil
  then show ?case by simp
next
  case (Cons ev evs)
  then show ?case by (cases ev) auto
qed

lemma outcomeOf_mem:
  "distinct (map evIndex evs) \<Longrightarrow> Complete i oc \<in> set evs \<Longrightarrow> outcomeOf evs i = Some oc"
proof (induction evs)
  case Nil
  then show ?case by simp
next
  case (Cons ev evs)
  obtain j oc' where ev: "ev = Complete j oc'" by (cases ev) auto
  show ?case
  proof (cases "Complete i oc = ev")
    case True
    then show ?thesis using ev by simp
  next
    case False
    then have m: "Complete i oc \<in> set evs" using Cons.prems(2) by simp
    then have "i \<in> evIndex ` set evs" by force
    then have "i \<noteq> j" using Cons.prems(1) ev by auto
    then show ?thesis using Cons.IH m Cons.prems(1) ev by simp
  qed
qed

lemma outcomeOf_in_set: "outcomeOf evs i = Some oc \<Longrightarrow> Complete i oc \<in> set evs"
proof (induction evs)
  case Nil
  then show ?case by simp
next
  case (Cons ev evs)
  then show ?case by (cases ev) (auto split: if_splits)
qed

lemma asyncRun_snoc:
  "asyncRun cfg e s (evs @ [ev]) =
     (case asyncRun cfg e s evs of None \<Rightarrow> None | Some s' \<Rightarrow> asyncComplete cfg e s' ev)"
  by (induction evs arbitrary: s) (auto split: option.splits)

lemma pendingCount_update:
  assumes "i < length ps" and "ps ! i = Pending" and "p \<noteq> Pending"
  shows "Suc (pendingCount (ps[i := p])) = pendingCount ps"
proof -
  have a: "ps = take i ps @ [Pending] @ drop (Suc i) ps"
    using assms(1,2) id_take_nth_drop by fastforce
  have b: "ps[i := p] = take i ps @ [p] @ drop (Suc i) ps"
    using assms(1) upd_conv_take_nth_drop by fastforce
  have "pendingCount ps = pendingCount (take i ps) + 1 + pendingCount (drop (Suc i) ps)"
    by (subst a) (simp add: pendingCount_def)
  moreover have "pendingCount (ps[i := p]) = pendingCount (take i ps) + pendingCount (drop (Suc i) ps)"
    by (subst b) (simp add: pendingCount_def assms(3))
  ultimately show ?thesis by simp
qed

lemma pendingCount_zero: "pendingCount ps = 0 \<longleftrightarrow> Pending \<notin> set ps"
  by (auto simp: pendingCount_def filter_empty_conv)

lemma hist_update:
  assumes "hist evs ps" and "i < length ps" and "ps ! i = Pending"
  shows "hist (evs @ [Complete i oc]) (ps[i := settle i oc])"
proof -
  have h: "\<forall>j < length ps. ps ! j = (case outcomeOf evs j of None \<Rightarrow> Pending | Some oc \<Rightarrow> settle j oc)"
    "\<forall>j \<ge> length ps. outcomeOf evs j = None"
    "length evs + pendingCount ps = length ps"
    "distinct (map evIndex evs)"
    using assms(1) by (simp_all add: hist_def)
  have none: "outcomeOf evs i = None"
  proof (cases "outcomeOf evs i")
    case None then show ?thesis .
  next
    case (Some x)
    then have "ps ! i = settle i x" using h(1) assms(2) by simp
    then show ?thesis using assms(3) by simp
  qed
  have 1: "\<forall>j < length (ps[i := settle i oc]).
            ps[i := settle i oc] ! j =
              (case outcomeOf (evs @ [Complete i oc]) j of None \<Rightarrow> Pending | Some oc \<Rightarrow> settle j oc)"
  proof (intro allI impI)
    fix j assume j: "j < length (ps[i := settle i oc])"
    show "ps[i := settle i oc] ! j =
            (case outcomeOf (evs @ [Complete i oc]) j of None \<Rightarrow> Pending | Some oc \<Rightarrow> settle j oc)"
    proof (cases "j = i")
      case True
      then show ?thesis using j none by (simp add: outcomeOf_snoc)
    next
      case False
      then show ?thesis using j h(1) by (simp add: outcomeOf_snoc split: option.splits)
    qed
  qed
  have 2: "\<forall>j \<ge> length (ps[i := settle i oc]). outcomeOf (evs @ [Complete i oc]) j = None"
    using h(2) assms(2) by (simp add: outcomeOf_snoc)
  have 3: "length (evs @ [Complete i oc]) + pendingCount (ps[i := settle i oc]) = length (ps[i := settle i oc])"
    using h(3) pendingCount_update[OF assms(2,3) settle_not_Pending(1), of i oc] by simp
  have 4: "distinct (map evIndex (evs @ [Complete i oc]))"
    using h(4) none by (simp add: outcomeOf_None_iff)
  show ?thesis unfolding hist_def using 1 2 3 4 by blast
qed

lemma hist_extend:
  assumes "hist evs ps"
  shows "hist evs (ps @ replicate m Pending)"
proof -
  have h: "\<forall>j < length ps. ps ! j = (case outcomeOf evs j of None \<Rightarrow> Pending | Some oc \<Rightarrow> settle j oc)"
    "\<forall>j \<ge> length ps. outcomeOf evs j = None"
    "length evs + pendingCount ps = length ps"
    "distinct (map evIndex evs)"
    using assms(1) by (simp_all add: hist_def)
  have 1: "\<forall>j < length (ps @ replicate m Pending).
            (ps @ replicate m Pending) ! j =
              (case outcomeOf evs j of None \<Rightarrow> Pending | Some oc \<Rightarrow> settle j oc)"
  proof (intro allI impI)
    fix j assume j: "j < length (ps @ replicate m Pending)"
    show "(ps @ replicate m Pending) ! j =
              (case outcomeOf evs j of None \<Rightarrow> Pending | Some oc \<Rightarrow> settle j oc)"
    proof (cases "j < length ps")
      case True
      then show ?thesis using h(1) by (simp add: nth_append)
    next
      case False
      then have "outcomeOf evs j = None" using h(2) by simp
      then show ?thesis using False j by (simp add: nth_append)
    qed
  qed
  have 2: "\<forall>j \<ge> length (ps @ replicate m Pending). outcomeOf evs j = None"
    using h(2) by simp
  have 3: "length evs + pendingCount (ps @ replicate m Pending) = length (ps @ replicate m Pending)"
    using h(3) by simp
  show ?thesis unfolding hist_def using 1 2 3 h(4) by blast
qed

lemma hist_settled:
  assumes "hist evs ps" and "pendingCount ps = 0"
  shows "\<forall>i < length ps. \<exists>oc. outcomeOf evs i = Some oc \<and> ps ! i = settle i oc"
proof (intro allI impI)
  fix i assume i: "i < length ps"
  have np: "ps ! i \<noteq> Pending"
    using assms(2) i by (metis nth_mem pendingCount_zero)
  have "ps ! i = (case outcomeOf evs i of None \<Rightarrow> Pending | Some oc \<Rightarrow> settle i oc)"
    using assms(1) i by (simp add: hist_def)
  then show "\<exists>oc. outcomeOf evs i = Some oc \<and> ps ! i = settle i oc"
    using np by (cases "outcomeOf evs i") auto
qed

lemma aggregate_settled:
  assumes "ps \<noteq> []" and "\<forall>i < length ps. \<exists>oc. ps ! i = settle i oc"
  shows "aggregate e ps \<noteq> DfdPending"
proof (cases "length ps = 1")
  case True
  then obtain p where p: "ps = [p]" by (cases ps) auto
  then obtain oc where "p = settle 0 oc" using assms(2) by auto
  then show ?thesis unfolding p
    by (cases oc) (simp_all add: aggregate_single_done aggregate_single_fail)
next
  case False
  moreover have "length ps \<noteq> 0" using assms(1) by simp
  ultimately have two: "2 \<le> length ps" by linarith
  have shape: "\<forall>p \<in> set ps. \<exists>i oc. p = settle i oc"
    using assms(2) by (metis in_set_conv_nth)
  show ?thesis
  proof (cases "filter isRejected ps = []")
    case True
    have res: "\<forall>p \<in> set ps. \<exists>a. p = Resolved a \<and> 1 < length a"
    proof
      fix p assume pin: "p \<in> set ps"
      then obtain i oc where p: "p = settle i oc" using shape by blast
      have "\<not> isRejected p" using True pin by (auto simp: filter_empty_conv)
      then show "\<exists>a. p = Resolved a \<and> 1 < length a" using p by (cases oc) auto
    qed
    define argss where "argss = map (\<lambda>p. case p of Resolved a \<Rightarrow> a | _ \<Rightarrow> []) ps"
    have eq: "ps = map Resolved argss"
      unfolding argss_def using res by (induction ps) auto
    have len: "\<forall>a \<in> set argss. 1 < length a"
      unfolding argss_def using res by auto
    have "2 \<le> length argss" using two by (simp add: argss_def)
    from aggregate_multi_done[OF this len, of e] show ?thesis
      unfolding eq by (simp split: if_splits)
  next
    case False
    have "\<forall>p \<in> set ps. isRejected p \<longrightarrow> (\<exists>i st err. p = Rejected [Xhr i, Str st, Str err])"
    proof (intro ballI impI)
      fix p assume pin: "p \<in> set ps" and r: "isRejected p"
      then obtain i oc where p: "p = settle i oc" using shape by blast
      then show "\<exists>i st err. p = Rejected [Xhr i, Str st, Str err]"
        using r by (cases oc) auto
    qed
    from aggregate_multi_fail[OF two False this, of e] show ?thesis by auto
  qed
qed

lemma core_dfd_update [simp]: "core cfg q (s\<lparr> dfd := d \<rparr>) = core cfg q s"
  by (simp add: core_def)

lemma quiescent_complete:
  assumes st: "quiescent cfg e q evs s"
      and b: "1 \<le> batchSize cfg" and c: "1 \<le> concurrency cfg"
      and ev: "asyncComplete cfg e s ev = Some s'"
  shows "quiescent cfg e q (evs @ [ev]) s'"
proof -
  obtain i oc where evd: "ev = Complete i oc" by (cases ev) auto
  define ps where "ps = updatePromisesList s"
  have i: "i < length ps" "ps ! i = Pending"
    using ev unfolding evd ps_def by (auto split: if_splits)
  define s1 where "s1 = s\<lparr> updatePromisesList := ps[i := settle i oc],
                           updatesInFlight := updatesInFlight s - 1,
                           inFlightLog := inFlightLog s @ [updatesInFlight s - 1] \<rparr>"
  have s': "s' = (if updatesInFlight s1 = 0 \<and> batchProcessingDone s1 then resolveUpdateListItems e s1
                  else if updatesInFlight s1 < concurrency cfg then asyncExec cfg s1 else s1)"
    using ev i unfolding evd ps_def s1_def by (simp add: asyncDone_def Let_def)
  have cs: "core cfg q s" and hs: "hist evs ps"
    and qs: "batchProcessingDone s \<or> concurrency cfg \<le> updatesInFlight s"
    and ds: "if updatesInFlight s = 0
             then dfd s = aggregate e ps \<and> dfd s \<noteq> DfdPending else dfd s = DfdPending"
    using st unfolding quiescent_def ps_def by blast+
  have fl: "updatesInFlight s = int (pendingCount ps)"
    using cs by (simp add: core_def Let_def ps_def)
  have pc: "Suc (pendingCount (ps[i := settle i oc])) = pendingCount ps"
    using pendingCount_update[OF i settle_not_Pending(1)] .
  have dp: "dfd s1 = DfdPending" using ds fl pc by (simp add: s1_def split: if_splits)
  have c1: "core cfg q s1"
    using cs fl pc unfolding core_def Let_def s1_def ps_def[symmetric] by simp
  have h1: "hist (evs @ [ev]) (updatePromisesList s1)"
    using hist_update[OF hs i] by (simp add: s1_def evd)
  have fl1: "updatesInFlight s1 = int (pendingCount (updatePromisesList s1))"
    using c1 by (simp add: core_def Let_def)
  consider (resolve) "updatesInFlight s1 = 0" "batchProcessingDone s1"
    | (exec) "\<not> (updatesInFlight s1 = 0 \<and> batchProcessingDone s1)" "updatesInFlight s1 < concurrency cfg"
    | (full) "\<not> (updatesInFlight s1 = 0 \<and> batchProcessingDone s1)" "\<not> updatesInFlight s1 < concurrency cfg"
    by blast
  then show ?thesis
  proof cases
    case resolve
    have eq: "s' = resolveUpdateListItems e s1" using s' resolve by simp
    have fr: "s' = s1\<lparr> dfd := dfd s' \<rparr>"
      unfolding eq by (rule resolveUpdateListItems_frame)
    have ag: "dfd s' = aggregate e (updatePromisesList s1)"
      unfolding eq by (rule resolveUpdateListItems_aggregate[OF dp])
    have pz: "pendingCount (updatePromisesList s1) = 0" using fl1 resolve(1) by simp
    have ne: "updatePromisesList s1 \<noteq> []" using i by (auto simp: s1_def)
    have "\<forall>j < length (updatePromisesList s1). \<exists>oc. updatePromisesList s1 ! j = settle j oc"
      using hist_settled[OF h1 pz] by blast
    from aggregate_settled[OF ne this] have ns: "dfd s' \<noteq> DfdPending" using ag by simp
    have "core cfg q s'" by (subst fr) (simp add: c1)
    moreover have "hist (evs @ [ev]) (updatePromisesList s')" by (subst fr) (simp add: h1)
    moreover have "batchProcessingDone s'" by (subst fr) (simp add: resolve)
    moreover have "updatesInFlight s' = 0" by (subst fr) (simp add: resolve)
    moreover have "updatePromisesList s' = updatePromisesList s1" by (subst fr) simp
    ultimately show ?thesis using ag ns by (simp add: quiescent_def)
  next
    case exec
    have eq: "s' = asyncExec cfg s1" using s' exec by simp
    from asyncExec_core[OF b c1] obtain m where ex:
      "core cfg q s'" "dfd s' = dfd s1"
      "updatePromisesList s' = updatePromisesList s1 @ replicate m Pending"
      "batchProcessingDone s' \<or> concurrency cfg \<le> updatesInFlight s'"
      unfolding eq by blast
    have h': "hist (evs @ [ev]) (updatePromisesList s')"
      unfolding ex(3) by (rule hist_extend[OF h1])
    have fl': "updatesInFlight s' = updatesInFlight s1 + int m"
      using ex(1) fl1 by (simp add: core_def Let_def ex(3))
    have "updatesInFlight s' \<noteq> 0"
    proof
      assume z: "updatesInFlight s' = 0"
      then have m0: "m = 0" and z1: "updatesInFlight s1 = 0" using fl' fl1 by simp_all
      then have nd: "\<not> batchProcessingDone s1" using exec(1) by simp
      have "length (updatePromisesList s') = length (updatePromisesList s1)"
        using ex(3) m0 by simp
      then have "batchProcessingDone s' = batchProcessingDone s1"
        using ex(1) c1 by (simp add: core_def Let_def)
      then show False using ex(4) nd z c by simp
    qed
    then show ?thesis using ex h' dp by (simp add: quiescent_def)
  next
    case full
    have eq: "s' = s1" using s' full by simp
    have "updatesInFlight s1 \<noteq> 0" using full(2) c by simp
    then show ?thesis unfolding eq using c1 h1 dp full(2) by (simp add: quiescent_def)
  qed
qed

lemma quiescent_dispatch:
  assumes b: "1 \<le> batchSize cfg" and c: "1 \<le> concurrency cfg"
  shows "quiescent cfg e q [] (asyncDispatch cfg q)"
proof -
  have c0: "core cfg q (initState q)"
    by (simp add: core_def initState_def pendingCount_def)
  from asyncExec_core[OF b c0] obtain m where ex:
    "core cfg q (asyncDispatch cfg q)" "dfd (asyncDispatch cfg q) = DfdPending"
    "updatePromisesList (asyncDispatch cfg q) = replicate m Pending"
    "batchProcessingDone (asyncDispatch cfg q) \<or> concurrency cfg \<le> updatesInFlight (asyncDispatch cfg q)"
    unfolding asyncDispatch_def by (auto simp: initState_def)
  have fl: "updatesInFlight (asyncDispatch cfg q) = int m"
    using ex(1) by (simp add: core_def Let_def ex(3))
  have "batchProcessingDone (asyncDispatch cfg q) \<longrightarrow> 1 \<le> m"
    using ex(1) by (simp add: core_def Let_def ex(3))
  then have nz: "updatesInFlight (asyncDispatch cfg q) \<noteq> 0" using ex(4) fl c by auto
  have h: "hist [] (replicate m Pending)" by (simp add: hist_def)
  show ?thesis using ex nz h by (simp add: quiescent_def)
qed

lemma quiescent_run:
  assumes b: "1 \<le> batchSize cfg" and c: "1 \<le> concurrency cfg"
  shows "asyncRun cfg e (asyncDispatch cfg q) evs = Some s \<Longrightarrow> quiescent cfg e q evs s"
proof (induction evs arbitrary: s rule: rev_induct)
  case Nil
  then have "asyncDispatch cfg q = s" by simp
  then show ?case using quiescent_dispatch[OF b c, of e q] by metis
next
  case (snoc ev evs)
  from snoc.prems obtain s0 where r: "asyncRun cfg e (asyncDispatch cfg q) evs = Some s0"
    and ce: "asyncComplete cfg e s0 ev = Some s"
    by (auto simp: asyncRun_snoc split: option.splits)
  from quiescent_complete[OF snoc.IH[OF r] b c ce] show ?case .
qed

section \<open>Counting batches and completions\<close>

lemma ceil_le:
  assumes "1 \<le> (n::nat)"
  shows "((len + n - 1) div n \<le> L) = (len \<le> L * n)"
proof -
  have "((len + n - 1) div n \<le> L) = ((len + n - 1) div n < Suc L)" by auto
  also have "\<dots> = (len + n - 1 < Suc L * n)"
    using assms by (simp add: div_less_iff_less_mult)
  also have "\<dots> = (len \<le> L * n)" using assms by auto
  finally show ?thesis .
qed

lemma batchCount_upper:
  assumes "1 \<le> n" and "L \<le> 1 \<or> (L - 1) * n < len"
  shows "L \<le> batchCount len n"
proof (cases "L \<le> 1")
  case True
  then show ?thesis by (simp add: batchCount_def)
next
  case False
  then have "\<not> len \<le> (L - 1) * n" using assms(2) by auto
  then have "\<not> (len + n - 1) div n \<le> L - 1" using ceil_le[OF assms(1)] by simp
  then show ?thesis by (simp add: batchCount_def)
qed

lemma batchCount_exhausts:
  assumes "1 \<le> n"
  shows "1 \<le> batchCount len n \<and> len \<le> batchCount len n * n"
proof -
  have a: "len \<le> ((len + n - 1) div n) * n"
    using ceil_le[OF assms, of len "(len + n - 1) div n"] by simp
  have "((len + n - 1) div n) * n \<le> batchCount len n * n"
    by (intro mult_le_mono1) (simp add: batchCount_def)
  then have "len \<le> batchCount len n * n" using a by linarith
  moreover have "1 \<le> batchCount len n" by (simp add: batchCount_def)
  ultimately show ?thesis by simp
qed

lemma batchCount_lower:
  assumes "1 \<le> n" and "1 \<le> L" and "len \<le> L * n"
  shows "batchCount len n \<le> L"
  using assms ceil_le[OF assms(1), of len L] by (simp add: batchCount_def)

lemma asyncRun_facts:
  assumes b: "1 \<le> batchSize cfg" and c: "1 \<le> concurrency cfg"
      and r: "asyncRun cfg e (asyncDispatch cfg q) evs = Some s"
  shows "ajaxCalls s = map (batchText (nat (batchSize cfg)) q) [0..<length (updatePromisesList s)]"
    and "length (updatePromisesList s) =
           min (batchCount (length q) (nat (batchSize cfg))) (length evs + nat (concurrency cfg))"
    and "length evs + pendingCount (updatePromisesList s) = length (updatePromisesList s)"
    and "dfd s \<noteq> DfdPending \<longleftrightarrow> length evs = batchCount (length q) (nat (batchSize cfg))"
    and "dfd s \<noteq> DfdPending \<longleftrightarrow> pendingCount (updatePromisesList s) = 0"
    and "dfd s \<noteq> DfdPending \<Longrightarrow> dfd s = aggregate e (updatePromisesList s)"
    and "hist evs (updatePromisesList s)"
proof -
  define n where "n = nat (batchSize cfg)"
  define L where "L = length (updatePromisesList s)"
  define N where "N = batchCount (length q) n"
  define k where "k = pendingCount (updatePromisesList s)"
  have n: "1 \<le> n" using b by (simp add: n_def)
  have st: "quiescent cfg e q evs s" using quiescent_run[OF b c r] .
  have bd: "updatesInFlight s \<le> concurrency cfg"
    using bounded_run[OF bounded_dispatch r] c by (simp add: bounded_def)
  have co: "ajaxCalls s = map (batchText n q) [0..<L]"
     "batchProcessingDone s \<longleftrightarrow> 1 \<le> L \<and> length q \<le> L * n"
     "L \<le> 1 \<or> (L - 1) * n < length q"
     "updatesInFlight s = int k"
    using st by (simp_all add: quiescent_def core_def Let_def n_def L_def k_def)
  have h: "hist evs (updatePromisesList s)" using st by (simp add: quiescent_def)
  have cnt: "length evs + k = L" using h by (simp add: hist_def k_def L_def)
  have q: "batchProcessingDone s \<or> concurrency cfg \<le> updatesInFlight s"
    using st by (simp add: quiescent_def)
  have d: "updatesInFlight s = 0 \<longrightarrow> dfd s = aggregate e (updatePromisesList s) \<and> dfd s \<noteq> DfdPending"
    "updatesInFlight s \<noteq> 0 \<longrightarrow> dfd s = DfdPending"
    using st by (auto simp: quiescent_def split: if_splits)
  have up: "L \<le> N" unfolding N_def using batchCount_upper[OF n co(3)] .
  have done_iff: "batchProcessingDone s \<longleftrightarrow> L = N"
  proof
    assume "batchProcessingDone s"
    then have "N \<le> L" unfolding N_def using co(2) batchCount_lower[OF n] by simp
    then show "L = N" using up by simp
  next
    assume "L = N"
    then show "batchProcessingDone s"
      using co(2) batchCount_exhausts[OF n, of "length q"] by (simp add: N_def)
  qed
  have kc: "int k \<le> concurrency cfg" using bd co(4) by simp
  have len: "L = min N (length evs + nat (concurrency cfg))"
  proof (cases "batchProcessingDone s")
    case True
    then have "L = N" using done_iff by simp
    moreover have "L \<le> length evs + nat (concurrency cfg)" using cnt kc by linarith
    ultimately show ?thesis by simp
  next
    case False
    then have "concurrency cfg \<le> int k" using q co(4) by simp
    then have "k = nat (concurrency cfg)" using kc by linarith
    then show ?thesis using cnt up by simp
  qed
  have pend: "dfd s \<noteq> DfdPending \<longleftrightarrow> k = 0" using d co(4) by auto
  have fin: "k = 0 \<longleftrightarrow> length evs = N"
  proof
    assume k0: "k = 0"
    then have "batchProcessingDone s" using q co(4) c by auto
    then show "length evs = N" using done_iff cnt k0 by simp
  next
    assume "length evs = N"
    then show "k = 0" using cnt up by simp
  qed
  show "ajaxCalls s = map (batchText (nat (batchSize cfg)) q) [0..<length (updatePromisesList s)]"
    using co(1) by (simp add: n_def L_def)
  show "length (updatePromisesList s) =
           min (batchCount (length q) (nat (batchSize cfg))) (length evs + nat (concurrency cfg))"
    using len by (simp add: L_def N_def n_def)
  show "length evs + pendingCount (updatePromisesList s) = length (updatePromisesList s)"
    using cnt by (simp add: k_def L_def)
  show "dfd s \<noteq> DfdPending \<longleftrightarrow> length evs = batchCount (length q) (nat (batchSize cfg))"
    using pend fin by (simp add: N_def n_def)
  show "dfd s \<noteq> DfdPending \<longleftrightarrow> pendingCount (updatePromisesList s) = 0"
    using pend by (simp add: k_def)
  show "dfd s \<noteq> DfdPending \<Longrightarrow> dfd s = aggregate e (updatePromisesList s)"
    using d pend co(4) by auto
  show "hist evs (updatePromisesList s)" using h .
qed

section \<open>Synchronous requests\<close>

text \<open>
  With \<^verbatim>\<open>async\<close> false every request has completed when \<^verbatim>\<open>$.ajax\<close> returns, and its
  callback runs before its promise is pushed: the calls nest, one request deep each, and
  the innermost settles the caller's promise from an empty list of promises.
\<close>

lemma built_frame:
  "ajaxCalls s = ajaxCalls t \<Longrightarrow> updates s = updates t \<Longrightarrow>
   batchProcessingDone s = batchProcessingDone t \<Longrightarrow> built cfg q s = built cfg q t"
  by (simp add: built_def)

lemma built_ajax:
  assumes "built cfg q s" and "\<not> batchProcessingDone s" and "1 \<le> batchSize cfg"
      and "ajax cfg e s = (p, s1)"
  shows "built cfg q s1"
proof -
  define n where "n = nat (batchSize cfg)"
  define L where "L = length (ajaxCalls s)"
  have n: "1 \<le> n" using assms(3) by (simp add: n_def)
  have c: "ajaxCalls s = map (batchText n q) [0..<L]" "updates s = drop (L * n) q"
     "batchProcessingDone s \<longleftrightarrow> 1 \<le> L \<and> length q \<le> L * n"
     "L \<le> 1 \<or> (L - 1) * n < length q"
    using assms(1) by (simp_all add: built_def Let_def n_def L_def)
  have s1: "s1 = s\<lparr> updates := drop n (updates s),
         batchProcessingDone := batchProcessingDone s \<or> drop n (updates s) = [],
         ajaxCalls := ajaxCalls s @ [wrapBatch (concat (take n (updates s)))] \<rparr>"
    using assms(4) by (simp add: ajax_eq n_def)
  have nd: "L = 0 \<or> L * n < length q" using assms(2) c(3) by auto
  have l: "length (ajaxCalls s1) = Suc L" by (simp add: s1 L_def)
  have a: "ajaxCalls s1 = map (batchText n q) [0..<Suc L]"
    using c(1) by (simp add: s1 c(2) batchText_def batchAt_def)
  have u: "updates s1 = drop (Suc L * n) q"
    by (simp add: s1 c(2) add.commute)
  have d: "batchProcessingDone s1 \<longleftrightarrow> length q \<le> Suc L * n"
    using assms(2) by (simp add: s1 c(2) add.commute)
  have g: "Suc L \<le> 1 \<or> (Suc L - 1) * n < length q" using nd by auto
  show ?thesis
    unfolding built_def Let_def n_def[symmetric] l
    using a u d g by simp
qed

lemma built_sched:
  assumes "sched cfg e f s = Some s'" and "1 \<le> batchSize cfg" and "built cfg q s"
  shows "built cfg q s'"
proof -
  have "built cfg q s \<longrightarrow> built cfg q s'" using assms(1)
  proof (induction rule: sched_induct)
    case (stop s)
    show ?case by simp
  next
    case (launch s p s1 s2 s3 s4 s')
    show ?case
    proof
      assume b: "built cfg q s"
      have b1: "built cfg q s1"
        using built_ajax[OF b _ assms(2) launch.hyps(2)] launch.hyps(1) by simp
      have b2: "built cfg q s2"
        using b1 built_frame[of s2 s1 cfg q] by (simp add: launch.hyps(3))
      have b3: "built cfg q s3" using launch.IH(1) b2 by (auto split: if_splits)
      have b4: "built cfg q s4"
        using b3 built_frame[of s4 s3 cfg q] by (simp add: launch.hyps(4))
      show "built cfg q s'" using launch.IH(2) b4 by (auto split: if_splits)
    qed
  next
    case (callback s s1 s')
    show ?case
    proof
      assume b: "built cfg q s"
      have b1: "built cfg q s1"
        using b built_frame[of s1 s cfg q] by (simp add: callback.hyps(1))
      have "built cfg q (resolveUpdateListItems e s1) = built cfg q s1"
        by (rule built_frame) (simp_all add: resolveUpdateListItems_fields)
      then show "built cfg q s'" using callback.IH b1 by (auto split: if_splits)
    qed
  qed
  then show ?thesis using assms(3) by simp
qed

lemma built_initState: "built cfg q (initState q)"
  by (simp add: built_def initState_def)

lemma built_count:
  assumes "built cfg q s" and "batchProcessingDone s" and "1 \<le> batchSize cfg"
  shows "ajaxCalls s = map (batchText (nat (batchSize cfg)) q)
                         [0..<batchCount (length q) (nat (batchSize cfg))]"
proof -
  define n where "n = nat (batchSize cfg)"
  define L where "L = length (ajaxCalls s)"
  have n: "1 \<le> n" using assms(3) by (simp add: n_def)
  have c: "ajaxCalls s = map (batchText n q) [0..<L]"
     "batchProcessingDone s \<longleftrightarrow> 1 \<le> L \<and> length q \<le> L * n"
     "L \<le> 1 \<or> (L - 1) * n < length q"
    using assms(1) by (simp_all add: built_def Let_def n_def L_def)
  have "L \<le> batchCount (length q) n" using batchCount_upper[OF n c(3)] .
  moreover have "batchCount (length q) n \<le> L"
    using assms(2) c(2) batchCount_lower[OF n] by simp
  ultimately have "L = batchCount (length q) n" by simp
  then show ?thesis using c(1) by (simp add: n_def)
qed

lemma calls_promises_sched:
  assumes "sched cfg e f s = Some s'"
  shows "length (ajaxCalls s') + length (updatePromisesList s) =
         length (ajaxCalls s) + length (updatePromisesList s')"
  using assms
proof (induction rule: sched_induct)
  case (stop s)
  show ?case by simp
next
  case (launch s p s1 s2 s3 s4 s')
  note f = ajax_fields[OF launch.hyps(2)]
  have 2: "length (ajaxCalls s2) = Suc (length (ajaxCalls s))"
     "updatePromisesList s2 = updatePromisesList s"
    using f by (simp_all add: launch.hyps(3))
  have 3: "length (ajaxCalls s3) + length (updatePromisesList s2) =
           length (ajaxCalls s2) + length (updatePromisesList s3)"
    using launch.IH(1) by (auto split: if_splits)
  have 4: "length (ajaxCalls s4) = length (ajaxCalls s3)"
     "length (updatePromisesList s4) = Suc (length (updatePromisesList s3))"
    by (simp_all add: launch.hyps(4))
  have 5: "length (ajaxCalls s') + length (updatePromisesList s4) =
           length (ajaxCalls s4) + length (updatePromisesList s')"
    using launch.IH(2) by (auto split: if_splits)
  show ?case using 2 3 4 5 by simp
next
  case (callback s s1 s')
  have 1: "ajaxCalls s1 = ajaxCalls s" "updatePromisesList s1 = updatePromisesList s"
    by (simp_all add: callback.hyps(1))
  show ?case using callback.IH 1
    by (auto simp: resolveUpdateListItems_fields split: if_splits)
qed

lemma sync_no_pending:
  assumes "sched cfg e f s = Some s'" and "\<not> async cfg"
      and "Pending \<notin> set (updatePromisesList s)"
  shows "Pending \<notin> set (updatePromisesList s')"
proof -
  have "Pending \<notin> set (updatePromisesList s) \<longrightarrow> Pending \<notin> set (updatePromisesList s')"
    using assms(1)
  proof (induction rule: sched_induct)
    case (stop s)
    show ?case by simp
  next
    case (launch s p s1 s2 s3 s4 s')
    note f = ajax_fields[OF launch.hyps(2)]
    have p: "p \<noteq> Pending" using f(6) assms(2) by simp
    have 2: "updatePromisesList s2 = updatePromisesList s"
      using f by (simp add: launch.hyps(3))
    have 3: "Pending \<notin> set (updatePromisesList s2) \<longrightarrow> Pending \<notin> set (updatePromisesList s3)"
      using launch.IH(1) by (auto split: if_splits)
    have 4: "set (updatePromisesList s4) = insert p (set (updatePromisesList s3))"
      by (simp add: launch.hyps(4))
    have 5: "Pending \<notin> set (updatePromisesList s4) \<longrightarrow> Pending \<notin> set (updatePromisesList s')"
      using launch.IH(2) by (auto split: if_splits)
    show ?case using p 2 3 4 5 by auto
  next
    case (callback s s1 s')
    have 1: "updatePromisesList s1 = updatePromisesList s"
      by (simp add: callback.hyps(1))
    show ?case using callback.IH 1
      by (auto simp: resolveUpdateListItems_fields split: if_splits)
  qed
  then show ?thesis using assms(3) by simp
qed

lemma aggregate_empty:
  "aggregate e [] =
     (if doesMsgHaveError e Undefined
      then DfdRejected \<lparr> status = ''error'', message = getMsgError e Undefined,
                         httpData = Undefined, xhrRequest = Undefined \<rparr>
      else DfdResolved \<lparr> status = ''success'', message = Str ''Update Successful.'',
                         httpData = Undefined, xhrRequest = Undefined \<rparr>)"
  by (simp add: aggregate_def resolveUpdateListItems_def jq_when_def processAjaxResponses_def
        initState_def forEachBody_def arr_get_def rejectWith_def resolveWith_def Let_def)

lemma sync_settles:
  assumes "sched cfg e f s = Some s'" and "\<not> async cfg" and "1 \<le> concurrency cfg"
      and "updatePromisesList s = []" and "dfd s = DfdPending"
      and "f = ExecBatchUpdate \<longrightarrow> updatesInFlight s = 0 \<and> \<not> batchProcessingDone s"
      and "f = OnUpdateDone \<longrightarrow> updatesInFlight s = 1"
  shows "updatesInFlight s' = 0 \<and> batchProcessingDone s' \<and> dfd s' = aggregate e []"
proof -
  have "updatePromisesList s = [] \<and> dfd s = DfdPending \<and>
        (f = ExecBatchUpdate \<longrightarrow> updatesInFlight s = 0 \<and> \<not> batchProcessingDone s) \<and>
        (f = OnUpdateDone \<longrightarrow> updatesInFlight s = 1) \<longrightarrow>
        updatesInFlight s' = 0 \<and> batchProcessingDone s' \<and> dfd s' = aggregate e []"
    using assms(1)
  proof (induction rule: sched_induct)
    case (stop s)
    show ?case using stop assms(3) by auto
  next
    case (launch s p s1 s2 s3 s4 s')
    show ?case
    proof (intro impI, elim conjE)
      assume a: "updatePromisesList s = []" "dfd s = DfdPending"
        "ExecBatchUpdate = ExecBatchUpdate \<longrightarrow> updatesInFlight s = 0 \<and> \<not> batchProcessingDone s"
      note f = ajax_fields[OF launch.hyps(2)]
      have p: "p \<noteq> Pending" using f(6) assms(2) by simp
      have 2: "updatePromisesList s2 = []" "dfd s2 = DfdPending" "updatesInFlight s2 = 1"
        using f a by (simp_all add: launch.hyps(3))
      have 3: "updatesInFlight s3 = 0 \<and> batchProcessingDone s3 \<and> dfd s3 = aggregate e []"
        using launch.IH(1) p 2 by simp
      then have 4: "updatesInFlight s4 = 0 \<and> batchProcessingDone s4 \<and> dfd s4 = aggregate e []"
        by (simp add: launch.hyps(4))
      then have "s' = s4" using launch.IH(2) by simp
      then show "updatesInFlight s' = 0 \<and> batchProcessingDone s' \<and> dfd s' = aggregate e []"
        using 4 by simp
    qed
  next
    case (callback s s1 s')
    show ?case
    proof (intro impI, elim conjE)
      assume a: "updatePromisesList s = []" "dfd s = DfdPending"
        "OnUpdateDone = OnUpdateDone \<longrightarrow> updatesInFlight s = 1"
      have 1: "updatePromisesList s1 = []" "dfd s1 = DfdPending" "updatesInFlight s1 = 0"
        using a by (simp_all add: callback.hyps(1))
      show "updatesInFlight s' = 0 \<and> batchProcessingDone s' \<and> dfd s' = aggregate e []"
      proof (cases "batchProcessingDone s1")
        case True
        then have "s' = resolveUpdateListItems e s1" using callback.IH 1 by simp
        then show ?thesis
          using True 1 resolveUpdateListItems_aggregate[of s1 e]
          by (simp add: resolveUpdateListItems_fields)
      next
        case False
        then show ?thesis using callback.IH 1 assms(3) by simp
      qed
    qed
  qed
  then show ?thesis using assms(4-7) by simp
qed

lemma sync_stateAfter:
  assumes "\<not> async cfg" and "stateAfter cfg e q evs = Some s"
  shows "evs = [] \<and> dispatch cfg e q = Some s \<and> Pending \<notin> set (updatePromisesList s)"
proof -
  from assms(2) obtain s0 where d: "dispatch cfg e q = Some s0" and r: "run cfg e s0 evs = Some s"
    by (auto simp: stateAfter_def split: option.splits)
  have np: "Pending \<notin> set (updatePromisesList s0)"
    using d sync_no_pending[of cfg e ExecBatchUpdate "initState q" s0, OF _ assms(1)]
    by (simp add: dispatch_def execBatchUpdate_def initState_def)
  have "evs = []"
  proof (cases evs)
    case Nil
    then show ?thesis .
  next
    case (Cons ev evs')
    obtain i oc where "ev = Complete i oc" by (cases ev)
    then have "complete cfg e s0 ev = None" using np by (auto simp: in_set_conv_nth)
    then show ?thesis using r Cons by simp
  qed
  then show ?thesis using d r np by simp
qed

lemma sync_returns:
  assumes na: "\<not> async cfg" and b: "1 \<le> batchSize cfg" and c: "1 \<le> concurrency cfg"
  shows "updatePromisesList s = [] \<Longrightarrow> dfd s = DfdPending \<Longrightarrow> updatesInFlight s = 0 \<Longrightarrow>
         \<not> batchProcessingDone s \<Longrightarrow> \<exists>s'. sched cfg e ExecBatchUpdate s = Some s'"
proof (induction "length (updates s)" arbitrary: s rule: less_induct)
  case less
  have go: "\<not> (batchProcessingDone s \<or> concurrency cfg \<le> updatesInFlight s)"
    using less.prems c by simp
  obtain p s1 where aj: "ajax cfg e s = (p, s1)" by (cases "ajax cfg e s")
  note f = ajax_fields[OF aj]
  have p: "p \<noteq> Pending" using f(6) na by simp
  have s1: "updates s1 = drop (nat (batchSize cfg)) (updates s)"
     "batchProcessingDone s1 = (drop (nat (batchSize cfg)) (updates s) = [])"
    using aj less.prems(4) by (auto simp: ajax_eq)
  define s2 where "s2 = s1\<lparr> updatesInFlight := updatesInFlight s1 + 1,
                     inFlightLog := inFlightLog s1 @ [updatesInFlight s1 + 1] \<rparr>"
  define t1 where "t1 = s2\<lparr> updatesInFlight := updatesInFlight s2 - 1,
                   inFlightLog := inFlightLog s2 @ [updatesInFlight s2 - 1] \<rparr>"
  have t1: "updatePromisesList t1 = []" "dfd t1 = DfdPending" "updatesInFlight t1 = 0"
     "batchProcessingDone t1 = batchProcessingDone s1" "updates t1 = updates s1"
    using f less.prems by (simp_all add: t1_def s2_def)
  have "\<exists>s3. (if updatesInFlight t1 = 0 \<and> batchProcessingDone t1
            then Some (resolveUpdateListItems e t1)
            else if updatesInFlight t1 < concurrency cfg then sched cfg e ExecBatchUpdate t1
            else Some t1) = Some s3"
  proof (cases "batchProcessingDone s1")
    case True
    then show ?thesis using t1 by simp
  next
    case False
    then have "drop (nat (batchSize cfg)) (updates s) \<noteq> []" using s1 by simp
    then have "length (updates t1) < length (updates s)" using b t1(5) s1(1) by auto
    from less.hyps[OF this t1(1,2,3)] False t1(4)
    obtain s3 where "sched cfg e ExecBatchUpdate t1 = Some s3" by auto
    then show ?thesis using False t1 c by simp
  qed
  then obtain s3 where cb: "(if updatesInFlight t1 = 0 \<and> batchProcessingDone t1
            then Some (resolveUpdateListItems e t1)
            else if updatesInFlight t1 < concurrency cfg then sched cfg e ExecBatchUpdate t1
            else Some t1) = Some s3" by blast
  have od: "sched cfg e OnUpdateDone s2 = Some s3" using sched_callback[OF t1_def cb] .
  have 2: "updatePromisesList s2 = []" "dfd s2 = DfdPending" "updatesInFlight s2 = 1"
    using f less.prems by (simp_all add: s2_def)
  have "batchProcessingDone s3"
    using sync_settles[OF od na c 2(1,2)] 2(3) by simp
  define s4 where "s4 = s3\<lparr> updatePromisesList := updatePromisesList s3 @ [p] \<rparr>"
  have d4: "batchProcessingDone s4" using \<open>batchProcessingDone s3\<close> by (simp add: s4_def)
  have 3: "(if p = Pending then Some s2 else sched cfg e OnUpdateDone s2) = Some s3"
    using p od by simp
  have 4: "(if \<not> batchProcessingDone s4 then sched cfg e ExecBatchUpdate s4 else Some s4) = Some s4"
    using d4 by simp
  from sched_launch[OF go aj s2_def 3 s4_def 4] show ?case by blast
qed

lemma sync_dispatch:
  assumes "\<not> async cfg" and "1 \<le> batchSize cfg" and "1 \<le> concurrency cfg"
  shows "\<exists>s. dispatch cfg e q = Some s \<and>
             ajaxCalls s = map (batchText (nat (batchSize cfg)) q)
                             [0..<batchCount (length q) (nat (batchSize cfg))] \<and>
             length (updatePromisesList s) = batchCount (length q) (nat (batchSize cfg)) \<and>
             Pending \<notin> set (updatePromisesList s) \<and>
             updatesInFlight s = 0 \<and> dfd s = aggregate e []"
proof -
  have i: "updatePromisesList (initState q) = []" "dfd (initState q) = DfdPending"
     "updatesInFlight (initState q) = 0" "\<not> batchProcessingDone (initState q)"
    by (simp_all add: initState_def)
  from sync_returns[OF assms i] obtain s where s: "sched cfg e ExecBatchUpdate (initState q) = Some s"
    by blast
  have d: "dispatch cfg e q = Some s" using s by (simp add: dispatch_def execBatchUpdate_def)
  have st: "updatesInFlight s = 0 \<and> batchProcessingDone s \<and> dfd s = aggregate e []"
    using sync_settles[OF s assms(1,3) i(1,2)] i(3,4) by simp
  have bu: "built cfg q s" using built_sched[OF s assms(2) built_initState] .
  have a: "ajaxCalls s = map (batchText (nat (batchSize cfg)) q)
                             [0..<batchCount (length q) (nat (batchSize cfg))]"
    using built_count[OF bu _ assms(2)] st by simp
  have "length (ajaxCalls s) + length (updatePromisesList (initState q)) =
        length (ajaxCalls (initState q)) + length (updatePromisesList s)"
    using calls_promises_sched[OF s] .
  then have l: "length (updatePromisesList s) = batchCount (length q) (nat (batchSize cfg))"
    using a by (simp add: initState_def)
  have np: "Pending \<notin> set (updatePromisesList s)"
    using sync_no_pending[OF s assms(1)] i(1) by simp
  show ?thesis using d a l np st by blast
qed

section \<open>The batches are the runs of the queue\<close>

lemmas sched_eval = asyncDispatch_def initState_def oneAtATime_def defaults_def asyncExec_unfold
  asyncLaunch_def getBatchUpdateList_def asyncDone_def Let_def

lemma concat_batches: "concat (map (batchAt n q) [0..<N]) = take (N * n) q"
proof (induction N)
  case 0
  then show ?case by simp
next
  case (Suc N)
  have "take (N * n) q @ take n (drop (N * n) q) = take (N * n + n) q"
    by (simp add: take_add)
  then show ?case using Suc by (simp add: batchAt_def add.commute)
qed

lemma batchCount_ceilDiv: "batchCount len n = max 1 (ceilDiv len n)"
  by (simp add: batchCount_def ceilDiv_def)

lemma partition_async:
  assumes "1 \<le> batchSize cfg" and "1 \<le> concurrency cfg"
      and "asyncRun cfg e (asyncDispatch cfg q) evs = Some s" and "dfd s \<noteq> DfdPending"
  shows "ajaxCalls s =
           map (\<lambda>j. wrapBatch (concat (batchAt (nat (batchSize cfg)) q j)))
               [0..<max 1 (ceilDiv (length q) (nat (batchSize cfg)))] \<and>
         concat (map (batchAt (nat (batchSize cfg)) q)
               [0..<max 1 (ceilDiv (length q) (nat (batchSize cfg)))]) = q"
proof -
  define n where "n = nat (batchSize cfg)"
  define N where "N = batchCount (length q) n"
  have n: "1 \<le> n" using assms(1) by (simp add: n_def)
  note f = asyncRun_facts[OF assms(1,2,3)]
  have "length evs = N" using f(4) assms(4) by (simp add: N_def n_def)
  then have L: "length (updatePromisesList s) = N"
    using f(2) by (simp add: N_def n_def)
  have a: "ajaxCalls s = map (\<lambda>j. wrapBatch (concat (batchAt n q j))) [0..<N]"
    using f(1) L by (simp add: n_def batchText_def[abs_def])
  have "length q \<le> N * n" using batchCount_exhausts[OF n] by (simp add: N_def)
  then have c: "concat (map (batchAt n q) [0..<N]) = q"
    by (simp add: concat_batches)
  show ?thesis using a c by (simp add: N_def n_def batchCount_ceilDiv)
qed

lemma partition_of_count:
  assumes "1 \<le> batchSize cfg"
      and "ajaxCalls s = map (batchText (nat (batchSize cfg)) q)
                           [0..<batchCount (length q) (nat (batchSize cfg))]"
  shows "ajaxCalls s =
           map (\<lambda>j. wrapBatch (concat (batchAt (nat (batchSize cfg)) q j)))
               [0..<max 1 (ceilDiv (length q) (nat (batchSize cfg)))] \<and>
         concat (map (batchAt (nat (batchSize cfg)) q)
               [0..<max 1 (ceilDiv (length q) (nat (batchSize cfg)))]) = q"
proof -
  define n where "n = nat (batchSize cfg)"
  define N where "N = batchCount (length q) n"
  have n: "1 \<le> n" using assms(1) by (simp add: n_def)
  have a: "ajaxCalls s = map (\<lambda>j. wrapBatch (concat (batchAt n q j))) [0..<N]"
    using assms(2) by (simp add: n_def N_def batchText_def[abs_def])
  have "length q \<le> N * n" using batchCount_exhausts[OF n] by (simp add: N_def)
  then have c: "concat (map (batchAt n q) [0..<N]) = q"
    by (simp add: concat_batches)
  show ?thesis using a c by (simp add: N_def n_def batchCount_ceilDiv)
qed

text \<open>
  Claim C1, amended. For a batch size and a concurrency of at least 1, with asynchronous
  and with synchronous requests alike, a call that has settled the promise has sent
  exactly \<open>max 1 (ceil (n / b))\<close> batches: \<open>ceil (n / b)\<close> for a queue that is not empty, one
  empty batch for the empty queue. The \<open>j\<close>-th batch is the text built from the \<open>j\<close>-th run
  of \<open>b\<close> descriptors, and the runs in build order, concatenated, are the queue: nothing is
  lost, repeated or reordered.
\<close>

theorem batches_partition_the_queue:
  assumes "1 \<le> batchSize cfg" and "1 \<le> concurrency cfg"
      and "stateAfter cfg e q evs = Some s" and "dfd s \<noteq> DfdPending"
  shows "ajaxCalls s =
           map (\<lambda>j. wrapBatch (concat (batchAt (nat (batchSize cfg)) q j)))
               [0..<max 1 (ceilDiv (length q) (nat (batchSize cfg)))] \<and>
         concat (map (batchAt (nat (batchSize cfg)) q)
               [0..<max 1 (ceilDiv (length q) (nat (batchSize cfg)))]) = q"
proof (cases "async cfg")
  case True
  then have "asyncRun cfg e (asyncDispatch cfg q) evs = Some s"
    using assms(3) by (simp add: stateAfter_async)
  from partition_async[OF assms(1,2) this assms(4)] show ?thesis .
next
  case False
  have "dispatch cfg e q = Some s" using sync_stateAfter[OF False assms(3)] by simp
  then have "ajaxCalls s = map (batchText (nat (batchSize cfg)) q)
                           [0..<batchCount (length q) (nat (batchSize cfg))]"
    using sync_dispatch[OF False assms(1,2), of e q] by auto
  from partition_of_count[OF assms(1) this] show ?thesis .
qed

theorem batches_partition_the_queue_witness:
  "1 \<le> batchSize (defaults\<lparr> batchSize := 2 \<rparr>) \<and> 1 \<le> concurrency (defaults\<lparr> batchSize := 2 \<rparr>) \<and>
   (\<exists>s. stateAfter (defaults\<lparr> batchSize := 2 \<rparr>) sampleEnv [''a'', ''b'', ''c'']
            [Complete 1 (Done ''d2'' ''success''), Complete 0 (Done ''d1'' ''success'')] = Some s \<and>
        dfd s \<noteq> DfdPending \<and>
        ajaxCalls s = map (\<lambda>j. wrapBatch (concat (batchAt 2 [''a'', ''b'', ''c''] j))) [0, 1] \<and>
        concat (map (batchAt 2 [''a'', ''b'', ''c'']) [0, 1]) = [''a'', ''b'', ''c'']) \<and>
   (\<exists>s. stateAfter (defaults\<lparr> batchSize := 2, async := False \<rparr>) sampleEnv [''a'', ''b'', ''c''] [] = Some s \<and>
        dfd s \<noteq> DfdPending \<and>
        ajaxCalls s = map (\<lambda>j. wrapBatch (concat (batchAt 2 [''a'', ''b'', ''c''] j))) [0, 1])"
proof -
  let ?cfg = "defaults\<lparr> batchSize := 2 \<rparr>"
  let ?sync = "defaults\<lparr> batchSize := 2, async := False \<rparr>"
  let ?evs = "[Complete 1 (Done ''d2'' ''success''), Complete 0 (Done ''d1'' ''success'')]"
  have b: "1 \<le> batchSize ?cfg" and c: "1 \<le> concurrency ?cfg" and a: "async ?cfg"
    by (simp_all add: defaults_def)
  have "asyncRun ?cfg sampleEnv (asyncDispatch ?cfg [''a'', ''b'', ''c'']) ?evs \<noteq> None"
    by (simp add: sched_eval)
  then obtain s where r0: "asyncRun ?cfg sampleEnv (asyncDispatch ?cfg [''a'', ''b'', ''c'']) ?evs = Some s"
    by blast
  then have r: "stateAfter ?cfg sampleEnv [''a'', ''b'', ''c''] ?evs = Some s"
    by (simp only: stateAfter_async[OF a])
  have d: "dfd s \<noteq> DfdPending"
    using asyncRun_facts(4)[OF b c r0] by (simp add: batchCount_def defaults_def)
  have 1: "ajaxCalls s = map (\<lambda>j. wrapBatch (concat (batchAt 2 [''a'', ''b'', ''c''] j))) [0, 1] \<and>
        concat (map (batchAt 2 [''a'', ''b'', ''c'']) [0, 1]) = [''a'', ''b'', ''c'']"
    using batches_partition_the_queue[OF b c r d] by (simp add: ceilDiv_def defaults_def)
  have b': "1 \<le> batchSize ?sync" and c': "1 \<le> concurrency ?sync" and a': "\<not> async ?sync"
    by (simp_all add: defaults_def)
  from sync_dispatch[OF a' b' c', of sampleEnv "[''a'', ''b'', ''c'']"]
  obtain t where t: "dispatch ?sync sampleEnv [''a'', ''b'', ''c''] = Some t"
    "dfd t = aggregate sampleEnv []" by blast
  have r': "stateAfter ?sync sampleEnv [''a'', ''b'', ''c''] [] = Some t"
    using t(1) by (simp add: stateAfter_def)
  have d': "dfd t \<noteq> DfdPending" using t(2) by (simp add: aggregate_empty)
  have 2: "ajaxCalls t = map (\<lambda>j. wrapBatch (concat (batchAt 2 [''a'', ''b'', ''c''] j))) [0, 1]"
    using batches_partition_the_queue[OF b' c' r' d'] by (simp add: ceilDiv_def defaults_def)
  show ?thesis using b c r d 1 r' d' 2 by blast
qed

text \<open>
  The claim as stated fails on the empty queue: \<open>ceil (0 / 100) = 0\<close>, and one batch is built.
\<close>

theorem empty_queue_builds_one_batch:
  "map_option (\<lambda>s. length (ajaxCalls s)) (dispatch defaults sampleEnv []) = Some 1 \<and>
   map_option batchProcessingDone (dispatch defaults sampleEnv []) = Some True \<and>
   ceilDiv (length ([] :: string list)) (nat (batchSize defaults)) = 0"
proof -
  have "async defaults" by (simp add: defaults_def)
  then show ?thesis by (simp add: dispatch_async sched_eval ceilDiv_def)
qed

section \<open>The in-flight counter never exceeds the concurrency bound\<close>

text \<open>
  Claim C3. For a concurrency bound of at least 1, with asynchronous and with synchronous
  requests alike, in every state the call reaches (when the entry point has returned and
  after any sequence of completions), the in-flight counter is at most the bound, and so
  is every value that was ever assigned to it on the way.
\<close>

theorem inFlight_never_exceeds_concurrency:
  assumes "1 \<le> concurrency cfg"
      and "stateAfter cfg e q evs = Some s"
  shows "updatesInFlight s \<le> concurrency cfg \<and> (\<forall>v \<in> set (inFlightLog s). v \<le> concurrency cfg)"
proof -
  have "0 \<le> concurrency cfg" using assms(1) by simp
  from bounded_stateAfter[OF this assms(2)] show ?thesis by (simp add: bounded_def)
qed

theorem inFlight_never_exceeds_concurrency_witness:
  "1 \<le> concurrency oneAtATime \<and>
   (\<exists>s. stateAfter oneAtATime sampleEnv [''a'', ''b'', ''c'']
           [Complete 1 (Done ''d2'' ''success''), Complete 0 (Fail ''error'' ''Not Found'')] = Some s \<and>
        updatesInFlight s \<le> concurrency oneAtATime \<and>
        (\<forall>v \<in> set (inFlightLog s). v \<le> concurrency oneAtATime)) \<and>
   1 \<le> concurrency (oneAtATime\<lparr> async := False \<rparr>) \<and>
   (\<exists>s. stateAfter (oneAtATime\<lparr> async := False \<rparr>) sampleEnv [''a'', ''b'', ''c''] [] = Some s \<and>
        updatesInFlight s \<le> concurrency (oneAtATime\<lparr> async := False \<rparr>) \<and>
        (\<forall>v \<in> set (inFlightLog s). v \<le> concurrency (oneAtATime\<lparr> async := False \<rparr>)))"
proof -
  let ?evs = "[Complete 1 (Done ''d2'' ''success''), Complete 0 (Fail ''error'' ''Not Found'')]"
  let ?sync = "oneAtATime\<lparr> async := False \<rparr>"
  have c: "1 \<le> concurrency oneAtATime" and a: "async oneAtATime"
    by (simp_all add: oneAtATime_def defaults_def)
  have "asyncRun oneAtATime sampleEnv (asyncDispatch oneAtATime [''a'', ''b'', ''c'']) ?evs \<noteq> None"
    by (simp add: sched_eval)
  then obtain s where r: "stateAfter oneAtATime sampleEnv [''a'', ''b'', ''c''] ?evs = Some s"
    unfolding stateAfter_async[OF a] by blast
  have c': "1 \<le> concurrency ?sync" and b': "1 \<le> batchSize ?sync" and a': "\<not> async ?sync"
    by (simp_all add: oneAtATime_def defaults_def)
  from sync_dispatch[OF a' b' c', of sampleEnv "[''a'', ''b'', ''c'']"]
  obtain t where "dispatch ?sync sampleEnv [''a'', ''b'', ''c''] = Some t" by blast
  then have r': "stateAfter ?sync sampleEnv [''a'', ''b'', ''c''] [] = Some t"
    by (simp add: stateAfter_def)
  from inFlight_never_exceeds_concurrency[OF c r] inFlight_never_exceeds_concurrency[OF c' r']
    c c' r r'
  show ?thesis by blast
qed

section \<open>Every batch is submitted once and awaited\<close>

lemma sameSchedule_refl: "sameSchedule s s"
  by (simp add: sameSchedule_def)

lemma sameSchedule_launch:
  "sameSchedule s s' \<Longrightarrow> sameSchedule (asyncLaunch cfg s) (asyncLaunch cfg s')"
  by (simp add: sameSchedule_def asyncLaunch_eq)

lemma sameSchedule_exec:
  "sameSchedule s s' \<Longrightarrow> sameSchedule (asyncExec cfg s) (asyncExec cfg s')"
proof (induction cfg s arbitrary: s' rule: asyncExec.induct)
  case (1 cfg s)
  have c: "(batchProcessingDone s \<or> updatesInFlight s \<ge> concurrency cfg) =
           (batchProcessingDone s' \<or> updatesInFlight s' \<ge> concurrency cfg)"
    using "1.prems" by (simp add: sameSchedule_def)
  show ?case
  proof (cases "batchProcessingDone s \<or> updatesInFlight s \<ge> concurrency cfg")
    case True
    then show ?thesis using c "1.prems" by (simp add: asyncExec_unfold)
  next
    case False
    have l: "sameSchedule (asyncLaunch cfg s) (asyncLaunch cfg s')"
      using "1.prems" by (rule sameSchedule_launch)
    then have d: "batchProcessingDone (asyncLaunch cfg s) = batchProcessingDone (asyncLaunch cfg s')"
      by (simp add: sameSchedule_def)
    show ?thesis
    proof (cases "batchProcessingDone (asyncLaunch cfg s)")
      case True
      then show ?thesis using False c d l
        by (subst (1 2) asyncExec_unfold) simp
    next
      case nd: False
      have "sameSchedule (asyncExec cfg (asyncLaunch cfg s)) (asyncExec cfg (asyncLaunch cfg s'))"
        using "1.IH"[OF False refl nd l] .
      then show ?thesis using False c d nd
        by (subst (1 2) asyncExec_unfold) simp
    qed
  qed
qed

lemma sameSchedule_dfd [simp]:
  "sameSchedule (s\<lparr> dfd := d \<rparr>) s' = sameSchedule s s'"
  "sameSchedule s (s'\<lparr> dfd := d \<rparr>) = sameSchedule s s'"
  by (simp_all add: sameSchedule_def)

lemma sameSchedule_resolve:
  "sameSchedule s s' \<Longrightarrow> sameSchedule (resolveUpdateListItems e s) (resolveUpdateListItems e' s')"
  by (subst resolveUpdateListItems_frame, subst (2) resolveUpdateListItems_frame) simp

lemma sameSchedule_fields:
  assumes "sameSchedule s t"
  shows "updates s = updates t" "batchProcessingDone s = batchProcessingDone t"
    "updatesInFlight s = updatesInFlight t" "ajaxCalls s = ajaxCalls t"
    "inFlightLog s = inFlightLog t"
    "map (\<lambda>p. p = Pending) (updatePromisesList s) = map (\<lambda>p. p = Pending) (updatePromisesList t)"
  using assms by (simp_all add: sameSchedule_def)

lemma sameSchedule_sched:
  assumes "sched cfg e f s = Some s'" and "sameSchedule s t"
  shows "\<exists>t'. sched cfg e' f t = Some t' \<and> sameSchedule s' t'"
proof -
  have "\<forall>t. sameSchedule s t \<longrightarrow> (\<exists>t'. sched cfg e' f t = Some t' \<and> sameSchedule s' t')"
    using assms(1)
  proof (induction rule: sched_induct)
    case (stop s)
    show ?case
    proof (intro allI impI)
      fix t assume a: "sameSchedule s t"
      have "batchProcessingDone t \<or> concurrency cfg \<le> updatesInFlight t"
        using stop sameSchedule_fields[OF a] by simp
      from sched_stop[OF this] a
      show "\<exists>t'. sched cfg e' ExecBatchUpdate t = Some t' \<and> sameSchedule s t'" by blast
    qed
  next
    case (launch s p s1 s2 s3 s4 s')
    show ?case
    proof (intro allI impI)
      fix t assume a: "sameSchedule s t"
      note af = sameSchedule_fields[OF a]
      have go: "\<not> (batchProcessingDone t \<or> concurrency cfg \<le> updatesInFlight t)"
        using launch.hyps(1) af by simp
      obtain p' t1 where aj: "ajax cfg e' t = (p', t1)" by (cases "ajax cfg e' t")
      define t2 where "t2 = t1\<lparr> updatesInFlight := updatesInFlight t1 + 1,
                     inFlightLog := inFlightLog t1 @ [updatesInFlight t1 + 1] \<rparr>"
      have pp: "(p = Pending) = (p' = Pending)"
        using ajax_fields(6)[OF launch.hyps(2)] ajax_fields(6)[OF aj] by simp
      have a1: "sameSchedule s1 t1"
        using launch.hyps(2) aj af by (auto simp: ajax_eq sameSchedule_def)
      have a2: "sameSchedule s2 t2"
        using a1 by (simp add: sameSchedule_def launch.hyps(3) t2_def)
      have "\<exists>t3. (if p' = Pending then Some t2 else sched cfg e' OnUpdateDone t2) = Some t3 \<and>
                  sameSchedule s3 t3"
      proof (cases "p = Pending")
        case True
        then have "s3 = s2" using launch.IH(1) by simp
        then show ?thesis using True pp a2 by simp
      next
        case False
        then have "\<forall>t. sameSchedule s2 t \<longrightarrow>
                     (\<exists>t'. sched cfg e' OnUpdateDone t = Some t' \<and> sameSchedule s3 t')"
          using launch.IH(1) by simp
        then show ?thesis using False pp a2 by simp
      qed
      then obtain t3 where
          t3: "(if p' = Pending then Some t2 else sched cfg e' OnUpdateDone t2) = Some t3"
        and a3: "sameSchedule s3 t3" by blast
      define t4 where "t4 = t3\<lparr> updatePromisesList := updatePromisesList t3 @ [p'] \<rparr>"
      have a4: "sameSchedule s4 t4"
        using a3 pp by (simp add: sameSchedule_def launch.hyps(4) t4_def)
      have "\<exists>t'. (if \<not> batchProcessingDone t4 then sched cfg e' ExecBatchUpdate t4 else Some t4) = Some t' \<and>
                  sameSchedule s' t'"
      proof (cases "batchProcessingDone s4")
        case True
        then have "s' = s4" using launch.IH(2) by simp
        then show ?thesis using True a4 sameSchedule_fields(2)[OF a4] by simp
      next
        case False
        then have "\<forall>t. sameSchedule s4 t \<longrightarrow>
                     (\<exists>t'. sched cfg e' ExecBatchUpdate t = Some t' \<and> sameSchedule s' t')"
          using launch.IH(2) by simp
        then show ?thesis using False a4 sameSchedule_fields(2)[OF a4] by simp
      qed
      then obtain t' where
          t': "(if \<not> batchProcessingDone t4 then sched cfg e' ExecBatchUpdate t4 else Some t4) = Some t'"
        and a': "sameSchedule s' t'" by blast
      from sched_launch[OF go aj t2_def t3 t4_def t'] a'
      show "\<exists>t'. sched cfg e' ExecBatchUpdate t = Some t' \<and> sameSchedule s' t'" by blast
    qed
  next
    case (callback s s1 s')
    show ?case
    proof (intro allI impI)
      fix t assume a: "sameSchedule s t"
      define t1 where "t1 = t\<lparr> updatesInFlight := updatesInFlight t - 1,
                   inFlightLog := inFlightLog t @ [updatesInFlight t - 1] \<rparr>"
      have a1: "sameSchedule s1 t1"
        using a by (simp add: sameSchedule_def callback.hyps(1) t1_def)
      note f1 = sameSchedule_fields[OF a1]
      have "\<exists>t'. (if updatesInFlight t1 = 0 \<and> batchProcessingDone t1
            then Some (resolveUpdateListItems e' t1)
            else if updatesInFlight t1 < concurrency cfg then sched cfg e' ExecBatchUpdate t1
            else Some t1) = Some t' \<and> sameSchedule s' t'"
      proof (cases "updatesInFlight s1 = 0 \<and> batchProcessingDone s1")
        case True
        then have "s' = resolveUpdateListItems e s1" using callback.IH by simp
        then show ?thesis
          using True f1(2,3) sameSchedule_resolve[OF a1, of e e'] by simp
      next
        case False
        show ?thesis
        proof (cases "updatesInFlight s1 < concurrency cfg")
          case True
          then have "\<forall>t. sameSchedule s1 t \<longrightarrow>
                     (\<exists>t'. sched cfg e' ExecBatchUpdate t = Some t' \<and> sameSchedule s' t')"
            using callback.IH False by simp
          then show ?thesis using True False f1(2,3) a1 by auto
        next
          case nl: False
          then have "s' = s1" using callback.IH False by simp
          then show ?thesis using nl False f1(2,3) a1 by auto
        qed
      qed
      then obtain t' where
        t': "(if updatesInFlight t1 = 0 \<and> batchProcessingDone t1
            then Some (resolveUpdateListItems e' t1)
            else if updatesInFlight t1 < concurrency cfg then sched cfg e' ExecBatchUpdate t1
            else Some t1) = Some t'" and a': "sameSchedule s' t'" by blast
      from sched_callback[OF t1_def t'] a'
      show "\<exists>t'. sched cfg e' OnUpdateDone t = Some t' \<and> sameSchedule s' t'" by blast
    qed
  qed
  then show ?thesis using assms(2) by blast
qed

lemma sameSchedule_asyncDone:
  assumes "sameSchedule s s'"
  shows "sameSchedule (asyncDone cfg e s) (asyncDone cfg e' s')"
proof -
  define s1 where "s1 = s\<lparr> updatesInFlight := updatesInFlight s - 1,
                           inFlightLog := inFlightLog s @ [updatesInFlight s - 1] \<rparr>"
  define s1' where "s1' = s'\<lparr> updatesInFlight := updatesInFlight s' - 1,
                           inFlightLog := inFlightLog s' @ [updatesInFlight s' - 1] \<rparr>"
  have a: "sameSchedule s1 s1'" using assms by (simp add: sameSchedule_def s1_def s1'_def)
  have e1: "asyncDone cfg e s =
          (if updatesInFlight s1 = 0 \<and> batchProcessingDone s1 then resolveUpdateListItems e s1
           else if updatesInFlight s1 < concurrency cfg then asyncExec cfg s1 else s1)"
    unfolding asyncDone_def s1_def Let_def ..
  have e2: "asyncDone cfg e' s' =
          (if updatesInFlight s1' = 0 \<and> batchProcessingDone s1' then resolveUpdateListItems e' s1'
           else if updatesInFlight s1' < concurrency cfg then asyncExec cfg s1' else s1')"
    unfolding asyncDone_def s1'_def Let_def ..
  have c: "updatesInFlight s1 = updatesInFlight s1'" "batchProcessingDone s1 = batchProcessingDone s1'"
    using a by (simp_all add: sameSchedule_def)
  show ?thesis
    unfolding e1 e2 c
    using a sameSchedule_resolve[OF a, of e e'] sameSchedule_exec[OF a, of cfg] by simp
qed

lemma sameSchedule_complete:
  assumes "sameSchedule s s'" and "asyncComplete cfg e s (Complete i oc) = Some t"
  shows "\<exists>t'. asyncComplete cfg e' s' (Complete i oc') = Some t' \<and> sameSchedule t t'"
proof -
  let ?ps = "updatePromisesList s" and ?ps' = "updatePromisesList s'"
  have m: "map (\<lambda>p. p = Pending) ?ps = map (\<lambda>p. p = Pending) ?ps'"
    using assms(1) by (simp add: sameSchedule_def)
  have "length (map (\<lambda>p. p = Pending) ?ps) = length (map (\<lambda>p. p = Pending) ?ps')"
    using m by simp
  then have len: "length ?ps = length ?ps'" by simp
  have i: "i < length ?ps" "?ps ! i = Pending"
    using assms(2) by (auto split: if_splits)
  have "map (\<lambda>p. p = Pending) ?ps ! i = map (\<lambda>p. p = Pending) ?ps' ! i"
    using m by simp
  then have "(?ps ! i = Pending) = (?ps' ! i = Pending)"
    using i(1) len by simp
  then have i': "i < length ?ps'" "?ps' ! i = Pending" using i len by simp_all
  have t: "t = asyncDone cfg e (s\<lparr> updatePromisesList := ?ps[i := settle i oc] \<rparr>)"
    using assms(2) i by simp
  have m2: "map (\<lambda>p. p = Pending) (?ps[i := settle i oc]) =
            map (\<lambda>p. p = Pending) (?ps'[i := settle i oc'])"
    using m by (simp add: map_update)
  have "sameSchedule (s\<lparr> updatePromisesList := ?ps[i := settle i oc] \<rparr>)
                     (s'\<lparr> updatePromisesList := ?ps'[i := settle i oc'] \<rparr>)"
    using assms(1) m2 by (simp add: sameSchedule_def)
  then have "sameSchedule t (asyncDone cfg e' (s'\<lparr> updatePromisesList := ?ps'[i := settle i oc'] \<rparr>))"
    unfolding t by (rule sameSchedule_asyncDone)
  moreover have "asyncComplete cfg e' s' (Complete i oc') =
      Some (asyncDone cfg e' (s'\<lparr> updatePromisesList := ?ps'[i := settle i oc'] \<rparr>))"
    using i' by simp
  ultimately show ?thesis by blast
qed

lemma sameSchedule_run:
  assumes "sameSchedule s s'" and "asyncRun cfg e s evs = Some t"
      and "map evIndex evs' = map evIndex evs"
  shows "\<exists>t'. asyncRun cfg e' s' evs' = Some t' \<and> sameSchedule t t'"
  using assms
proof (induction evs arbitrary: s s' evs')
  case Nil
  then show ?case by auto
next
  case (Cons ev evs)
  obtain ev' evs1 where evs': "evs' = ev' # evs1" "evIndex ev' = evIndex ev"
     "map evIndex evs1 = map evIndex evs"
    using Cons.prems(3) by (cases evs') auto
  obtain i oc where ev: "ev = Complete i oc" by (cases ev) auto
  obtain oc' where ev': "ev' = Complete i oc'" using evs'(2) ev by (cases ev') auto
  obtain u where u: "asyncComplete cfg e s ev = Some u" "asyncRun cfg e u evs = Some t"
    using Cons.prems(2) by (auto split: option.splits)
  from sameSchedule_complete[OF Cons.prems(1) u(1)[unfolded ev], of e' oc']
  obtain u' where u': "asyncComplete cfg e' s' ev' = Some u'" "sameSchedule u u'"
    unfolding ev' by blast
  from Cons.IH[OF u'(2) u(2) evs'(3)] obtain t' where "asyncRun cfg e' u' evs1 = Some t'" "sameSchedule t t'"
    by blast
  then show ?case using u'(1) evs'(1) by auto
qed

lemma awaited_exec: "awaited s \<Longrightarrow> awaited (asyncExec cfg s)"
proof (induction cfg s rule: asyncExec.induct)
  case (1 cfg s)
  show ?case
  proof (cases "batchProcessingDone s \<or> updatesInFlight s \<ge> concurrency cfg")
    case True
    then show ?thesis using "1.prems" by (simp add: asyncExec_unfold)
  next
    case False
    then have "dfd s = DfdPending" using "1.prems" by (auto simp: awaited_def)
    then have l: "awaited (asyncLaunch cfg s)"
      using "1.prems" by (simp add: awaited_def asyncLaunch_eq pendingCount_def)
    show ?thesis
    proof (cases "batchProcessingDone (asyncLaunch cfg s)")
      case True
      then show ?thesis using False l by (subst asyncExec_unfold) simp
    next
      case nd: False
      have "awaited (asyncExec cfg (asyncLaunch cfg s))" using "1.IH"[OF False refl nd l] .
      then show ?thesis using False nd by (subst asyncExec_unfold) simp
    qed
  qed
qed

lemma awaited_complete:
  assumes "awaited s" and "asyncComplete cfg e s ev = Some t"
  shows "awaited t"
proof -
  obtain i oc where ev: "ev = Complete i oc" by (cases ev) auto
  define ps where "ps = updatePromisesList s"
  have i: "i < length ps" "ps ! i = Pending"
    using assms(2) unfolding ev ps_def by (auto split: if_splits)
  define s1 where "s1 = s\<lparr> updatePromisesList := ps[i := settle i oc],
                           updatesInFlight := updatesInFlight s - 1,
                           inFlightLog := inFlightLog s @ [updatesInFlight s - 1] \<rparr>"
  have t: "t = (if updatesInFlight s1 = 0 \<and> batchProcessingDone s1 then resolveUpdateListItems e s1
                  else if updatesInFlight s1 < concurrency cfg then asyncExec cfg s1 else s1)"
    using assms(2) i unfolding ev ps_def s1_def by (simp add: asyncDone_def Let_def)
  have pc: "Suc (pendingCount (ps[i := settle i oc])) = pendingCount ps"
    using pendingCount_update[OF i settle_not_Pending(1)] .
  have fl: "updatesInFlight s = int (pendingCount ps)"
    using assms(1) by (simp add: awaited_def ps_def)
  have dp: "dfd s = DfdPending" using assms(1) fl pc by (auto simp: awaited_def)
  have a1: "awaited s1"
    using assms(1) fl pc dp by (simp add: awaited_def s1_def ps_def)
  have ar: "awaited (resolveUpdateListItems e s1)"
    if "updatesInFlight s1 = 0" "batchProcessingDone s1"
    using a1 that by (subst resolveUpdateListItems_frame) (simp add: awaited_def)
  show ?thesis unfolding t using a1 ar awaited_exec[OF a1, of cfg] by simp
qed

lemma awaited_run: "awaited s \<Longrightarrow> asyncRun cfg e s evs = Some t \<Longrightarrow> awaited t"
proof (induction evs arbitrary: s)
  case Nil
  then show ?case by simp
next
  case (Cons ev evs)
  then show ?case by (auto split: option.splits dest: awaited_complete)
qed

lemma awaited_dispatch: "awaited (asyncDispatch cfg q)"
  unfolding asyncDispatch_def by (rule awaited_exec) (simp add: awaited_def initState_def pendingCount_def)

lemma submitted_once_async:
  assumes "asyncRun cfg e (asyncDispatch cfg q) evs = Some s"
  shows "length (ajaxCalls s) = length (updatePromisesList s) \<and>
         (dfd s \<noteq> DfdPending \<longrightarrow> Pending \<notin> set (updatePromisesList s)) \<and>
         (\<forall>e' evs'. map evIndex evs' = map evIndex evs \<longrightarrow>
            (\<exists>s'. asyncRun cfg e' (asyncDispatch cfg q) evs' = Some s' \<and> ajaxCalls s' = ajaxCalls s)) \<and>
         (1 \<le> batchSize cfg \<and> 1 \<le> concurrency cfg \<longrightarrow>
            ajaxCalls s =
              map (batchText (nat (batchSize cfg)) q)
                [0..<min (batchCount (length q) (nat (batchSize cfg)))
                         (length evs + nat (concurrency cfg))] \<and>
            (\<forall>i < length (updatePromisesList s).
                (updatePromisesList s ! i = Pending) = (outcomeOf evs i = None)) \<and>
            ((dfd s \<noteq> DfdPending) = (length evs = batchCount (length q) (nat (batchSize cfg)))))"
proof -
  have aw: "awaited s" using awaited_run[OF awaited_dispatch assms] .
  have l: "length (ajaxCalls s) = length (updatePromisesList s)"
    using aw by (simp add: awaited_def)
  have w: "Pending \<notin> set (updatePromisesList s)" if "dfd s \<noteq> DfdPending"
  proof -
    have "pendingCount (updatePromisesList s) = 0" using aw that by (simp add: awaited_def)
    then show ?thesis by (simp add: pendingCount_zero)
  qed
  have o: "\<exists>s'. asyncRun cfg e' (asyncDispatch cfg q) evs' = Some s' \<and> ajaxCalls s' = ajaxCalls s"
    if "map evIndex evs' = map evIndex evs" for e' evs'
  proof -
    from sameSchedule_run[OF sameSchedule_refl assms that, of e']
    obtain s' where "asyncRun cfg e' (asyncDispatch cfg q) evs' = Some s'" "sameSchedule s s'" by blast
    then show ?thesis by (auto simp: sameSchedule_def)
  qed
  have v: "ajaxCalls s =
              map (batchText (nat (batchSize cfg)) q)
                [0..<min (batchCount (length q) (nat (batchSize cfg)))
                         (length evs + nat (concurrency cfg))] \<and>
            (\<forall>i < length (updatePromisesList s).
                (updatePromisesList s ! i = Pending) = (outcomeOf evs i = None)) \<and>
            ((dfd s \<noteq> DfdPending) = (length evs = batchCount (length q) (nat (batchSize cfg))))"
    if b: "1 \<le> batchSize cfg" and c: "1 \<le> concurrency cfg"
  proof -
    note f = asyncRun_facts[OF b c assms]
    have a: "ajaxCalls s =
             map (batchText (nat (batchSize cfg)) q)
               [0..<min (batchCount (length q) (nat (batchSize cfg)))
                        (length evs + nat (concurrency cfg))]"
      using f(1) f(2) by simp
    have p: "\<forall>i < length (updatePromisesList s).
               (updatePromisesList s ! i = Pending) = (outcomeOf evs i = None)"
    proof (intro allI impI)
      fix i assume "i < length (updatePromisesList s)"
      then have "updatePromisesList s ! i =
                   (case outcomeOf evs i of None \<Rightarrow> Pending | Some oc \<Rightarrow> settle i oc)"
        using f(7) by (simp add: hist_def)
      then show "(updatePromisesList s ! i = Pending) = (outcomeOf evs i = None)"
        by (cases "outcomeOf evs i") simp_all
    qed
    show ?thesis using a p f(4) by blast
  qed
  show ?thesis using l w o v by blast
qed

text \<open>
  Claim C9. After any sequence of completions, for any configuration, with asynchronous
  and with synchronous requests alike: every batch built has been sent in exactly one
  request; the caller's promise is settled only when no request is pending; and the
  requests sent are the same for every other sequence that completes the same requests
  in the same order with other outcomes, success or failure: a failure neither cancels
  a request nor causes one. For a valid configuration and asynchronous requests the
  requests sent after \<open>k\<close> completions are exactly the first \<open>min N (k + c)\<close> batches of the
  queue, each once and in order, a request is pending exactly until its own completion
  arrives, and the promise is settled exactly when all \<open>N\<close> batches have completed. For a
  valid configuration and synchronous requests all \<open>N\<close> batches have been sent, each once
  and in order, and have completed when the entry point returns, with the promise settled.
\<close>

theorem every_batch_submitted_once_and_awaited:
  assumes "stateAfter cfg e q evs = Some s"
  shows "length (ajaxCalls s) = length (updatePromisesList s) \<and>
         (dfd s \<noteq> DfdPending \<longrightarrow> Pending \<notin> set (updatePromisesList s)) \<and>
         (\<forall>e' evs'. map evIndex evs' = map evIndex evs \<longrightarrow>
            (\<exists>s'. stateAfter cfg e' q evs' = Some s' \<and> ajaxCalls s' = ajaxCalls s)) \<and>
         (async cfg \<and> 1 \<le> batchSize cfg \<and> 1 \<le> concurrency cfg \<longrightarrow>
            ajaxCalls s =
              map (batchText (nat (batchSize cfg)) q)
                [0..<min (batchCount (length q) (nat (batchSize cfg)))
                         (length evs + nat (concurrency cfg))] \<and>
            (\<forall>i < length (updatePromisesList s).
                (updatePromisesList s ! i = Pending) = (outcomeOf evs i = None)) \<and>
            ((dfd s \<noteq> DfdPending) = (length evs = batchCount (length q) (nat (batchSize cfg))))) \<and>
         (\<not> async cfg \<and> 1 \<le> batchSize cfg \<and> 1 \<le> concurrency cfg \<longrightarrow>
            evs = [] \<and>
            ajaxCalls s =
              map (batchText (nat (batchSize cfg)) q)
                [0..<batchCount (length q) (nat (batchSize cfg))] \<and>
            Pending \<notin> set (updatePromisesList s) \<and>
            dfd s \<noteq> DfdPending)"
proof (cases "async cfg")
  case True
  have r: "asyncRun cfg e (asyncDispatch cfg q) evs = Some s"
    using assms True by (simp add: stateAfter_async)
  from submitted_once_async[OF r] show ?thesis
    using True by (simp add: stateAfter_async)
next
  case False
  have sy: "evs = []" "dispatch cfg e q = Some s" "Pending \<notin> set (updatePromisesList s)"
    using sync_stateAfter[OF False assms] by simp_all
  have s: "sched cfg e ExecBatchUpdate (initState q) = Some s"
    using sy(2) by (simp add: dispatch_def execBatchUpdate_def)
  have l: "length (ajaxCalls s) = length (updatePromisesList s)"
    using calls_promises_sched[OF s] by (simp add: initState_def)
  have o: "\<exists>s'. stateAfter cfg e' q evs' = Some s' \<and> ajaxCalls s' = ajaxCalls s"
    if "map evIndex evs' = map evIndex evs" for e' evs'
  proof -
    have n: "evs' = []" using that sy(1) by simp
    from sameSchedule_sched[OF s sameSchedule_refl, of e']
    obtain t where t: "sched cfg e' ExecBatchUpdate (initState q) = Some t" "sameSchedule s t"
      by blast
    have "stateAfter cfg e' q evs' = Some t"
      using t(1) n by (simp add: stateAfter_def dispatch_def execBatchUpdate_def)
    then show ?thesis using sameSchedule_fields(4)[OF t(2)] by simp
  qed
  have v: "ajaxCalls s =
              map (batchText (nat (batchSize cfg)) q)
                [0..<batchCount (length q) (nat (batchSize cfg))] \<and>
            dfd s \<noteq> DfdPending"
    if "1 \<le> batchSize cfg" and "1 \<le> concurrency cfg"
    using sync_dispatch[OF False that, of e q] sy(2) by (auto simp: aggregate_empty)
  show ?thesis using False l sy(1,3) o v by blast
qed

theorem every_batch_submitted_once_and_awaited_witness:
  "1 \<le> batchSize oneAtATime \<and> 1 \<le> concurrency oneAtATime \<and>
   (\<exists>s s'. stateAfter oneAtATime sampleEnv [''a'', ''b'', ''c'']
              [Complete 1 (Fail ''timeout'' ''timeout''), Complete 0 (Done ''d1'' ''success'')] = Some s \<and>
           stateAfter oneAtATime sampleEnv [''a'', ''b'', ''c'']
              [Complete 1 (Done ''d2'' ''success''), Complete 0 (Done ''d1'' ''success'')] = Some s' \<and>
           ajaxCalls s' = ajaxCalls s \<and>
           ajaxCalls s = map (batchText 1 [''a'', ''b'', ''c'']) [0, 1, 2] \<and>
           length (updatePromisesList s) = 3 \<and>
           dfd s = DfdPending) \<and>
   (\<exists>t. stateAfter (oneAtATime\<lparr> async := False \<rparr>) sampleEnv [''a'', ''b'', ''c''] [] = Some t \<and>
        ajaxCalls t = map (batchText 1 [''a'', ''b'', ''c'']) [0, 1, 2] \<and>
        length (updatePromisesList t) = 3 \<and>
        Pending \<notin> set (updatePromisesList t) \<and>
        dfd t \<noteq> DfdPending)"
proof -
  let ?evs = "[Complete 1 (Fail ''timeout'' ''timeout''), Complete 0 (Done ''d1'' ''success'')]"
  let ?evs' = "[Complete 1 (Done ''d2'' ''success''), Complete 0 (Done ''d1'' ''success'')]"
  let ?sync = "oneAtATime\<lparr> async := False \<rparr>"
  have b: "1 \<le> batchSize oneAtATime" and c: "1 \<le> concurrency oneAtATime" and a: "async oneAtATime"
    by (simp_all add: oneAtATime_def defaults_def)
  have "asyncRun oneAtATime sampleEnv (asyncDispatch oneAtATime [''a'', ''b'', ''c'']) ?evs \<noteq> None"
    by (simp add: sched_eval)
  then obtain s where r: "stateAfter oneAtATime sampleEnv [''a'', ''b'', ''c''] ?evs = Some s"
    unfolding stateAfter_async[OF a] by blast
  note t = every_batch_submitted_once_and_awaited[OF r]
  have "map evIndex ?evs' = map evIndex ?evs" by simp
  then obtain s' where r': "stateAfter oneAtATime sampleEnv [''a'', ''b'', ''c''] ?evs' = Some s'"
    and same: "ajaxCalls s' = ajaxCalls s"
    using t by blast
  have x: "ajaxCalls s = map (batchText 1 [''a'', ''b'', ''c'']) [0, 1, 2] \<and> dfd s = DfdPending"
    using t a b c
    by (simp add: batchCount_def oneAtATime_def defaults_def numeral_2_eq_2)
  have "length (updatePromisesList s) = length (ajaxCalls s)" using t by simp
  then have l: "length (updatePromisesList s) = 3" using x by simp
  have b': "1 \<le> batchSize ?sync" and c': "1 \<le> concurrency ?sync" and a': "\<not> async ?sync"
    by (simp_all add: oneAtATime_def defaults_def)
  from sync_dispatch[OF a' b' c', of sampleEnv "[''a'', ''b'', ''c'']"]
  obtain u where "dispatch ?sync sampleEnv [''a'', ''b'', ''c''] = Some u" by blast
  then have ru: "stateAfter ?sync sampleEnv [''a'', ''b'', ''c''] [] = Some u"
    by (simp add: stateAfter_def)
  note tu = every_batch_submitted_once_and_awaited[OF ru]
  have y: "ajaxCalls u = map (batchText 1 [''a'', ''b'', ''c'']) [0, 1, 2] \<and>
           Pending \<notin> set (updatePromisesList u) \<and> dfd u \<noteq> DfdPending"
    using tu a' b' c'
    by (simp add: batchCount_def oneAtATime_def defaults_def numeral_3_eq_3 numeral_2_eq_2)
  have "length (updatePromisesList u) = length (ajaxCalls u)" using tu by simp
  then have lu: "length (updatePromisesList u) = 3" using y by simp
  show ?thesis using b c r r' same x l ru y lu by blast
qed

section \<open>No validation of the configuration; a valid dispatch settles\<close>

lemma asyncExec_dfd: "dfd (asyncExec cfg s) = dfd s"
proof (induction cfg s rule: asyncExec.induct)
  case (1 cfg s)
  show ?case
  proof (cases "batchProcessingDone s \<or> updatesInFlight s \<ge> concurrency cfg")
    case True
    then show ?thesis by (simp add: asyncExec_unfold)
  next
    case False
    show ?thesis
    proof (cases "batchProcessingDone (asyncLaunch cfg s)")
      case True
      then show ?thesis using False
        by (subst asyncExec_unfold) (simp add: asyncLaunch_dfd)
    next
      case nd: False
      have "dfd (asyncExec cfg (asyncLaunch cfg s)) = dfd (asyncLaunch cfg s)"
        using "1.IH"[OF False refl nd] .
      then show ?thesis using False nd
        by (subst asyncExec_unfold) (simp add: asyncLaunch_dfd)
    qed
  qed
qed

lemma settles_after_all_async:
  "dfd (asyncDispatch cfg q) = DfdPending \<and>
   (1 \<le> batchSize cfg \<and> 1 \<le> concurrency cfg \<and> asyncRun cfg e (asyncDispatch cfg q) evs = Some s \<longrightarrow>
      length evs \<le> max 1 (ceilDiv (length q) (nat (batchSize cfg))) \<and>
      ((dfd s \<noteq> DfdPending) = (length evs = max 1 (ceilDiv (length q) (nat (batchSize cfg))))) \<and>
      (length evs < max 1 (ceilDiv (length q) (nat (batchSize cfg))) \<longrightarrow>
         (\<exists>i. \<forall>oc. asyncComplete cfg e s (Complete i oc) \<noteq> None)))"
proof -
  have p: "dfd (asyncDispatch cfg q) = DfdPending"
    by (simp add: asyncDispatch_def asyncExec_dfd initState_def)
  have v: "length evs \<le> max 1 (ceilDiv (length q) (nat (batchSize cfg))) \<and>
      ((dfd s \<noteq> DfdPending) = (length evs = max 1 (ceilDiv (length q) (nat (batchSize cfg))))) \<and>
      (length evs < max 1 (ceilDiv (length q) (nat (batchSize cfg))) \<longrightarrow>
         (\<exists>i. \<forall>oc. asyncComplete cfg e s (Complete i oc) \<noteq> None))"
    if b: "1 \<le> batchSize cfg" and c: "1 \<le> concurrency cfg"
      and r: "asyncRun cfg e (asyncDispatch cfg q) evs = Some s"
  proof -
    define N where "N = max 1 (ceilDiv (length q) (nat (batchSize cfg)))"
    note f = asyncRun_facts[OF b c r]
    have N: "batchCount (length q) (nat (batchSize cfg)) = N"
      by (simp add: N_def batchCount_ceilDiv)
    have le: "length evs \<le> N" using f(2) f(3) N by simp
    have iff: "(dfd s \<noteq> DfdPending) = (length evs = N)" using f(4) N by simp
    have pr: "\<exists>i. \<forall>oc. asyncComplete cfg e s (Complete i oc) \<noteq> None" if "length evs < N"
    proof -
      have "pendingCount (updatePromisesList s) \<noteq> 0" using f(5) iff that by simp
      then have "Pending \<in> set (updatePromisesList s)" by (simp add: pendingCount_zero)
      then obtain i where "i < length (updatePromisesList s)" "updatePromisesList s ! i = Pending"
        by (auto simp: in_set_conv_nth)
      then have "\<forall>oc. asyncComplete cfg e s (Complete i oc) \<noteq> None" by simp
      then show ?thesis ..
    qed
    show ?thesis using le iff pr unfolding N_def by blast
  qed
  show ?thesis using p v by blast
qed

text \<open>
  Claim C5, amended. The entry point checks neither \<open>batchSize\<close> nor \<open>concurrency\<close>. With
  asynchronous requests the caller's promise is pending when the entry point returns,
  whatever the configuration, so no configuration error is surfaced; for a configuration
  with \<open>batchSize \<ge> 1\<close> and \<open>concurrency \<ge> 1\<close> the promise is settled exactly when all
  \<open>max 1 (ceil (n / b))\<close> requests have completed: no run is longer, and while fewer have
  completed some request is pending, so a completion can still arrive. With synchronous
  requests and such a configuration the entry point returns when all requests have been
  made and have completed, with the promise settled.
\<close>

theorem valid_dispatch_settles_after_all_batches:
  "(async cfg \<longrightarrow> map_option dfd (dispatch cfg e q) = Some DfdPending) \<and>
   (async cfg \<and> 1 \<le> batchSize cfg \<and> 1 \<le> concurrency cfg \<and> stateAfter cfg e q evs = Some s \<longrightarrow>
      length evs \<le> max 1 (ceilDiv (length q) (nat (batchSize cfg))) \<and>
      ((dfd s \<noteq> DfdPending) = (length evs = max 1 (ceilDiv (length q) (nat (batchSize cfg))))) \<and>
      (length evs < max 1 (ceilDiv (length q) (nat (batchSize cfg))) \<longrightarrow>
         (\<exists>i. \<forall>oc. complete cfg e s (Complete i oc) \<noteq> None))) \<and>
   (\<not> async cfg \<and> 1 \<le> batchSize cfg \<and> 1 \<le> concurrency cfg \<longrightarrow>
      (\<exists>t. dispatch cfg e q = Some t \<and>
           length (ajaxCalls t) = max 1 (ceilDiv (length q) (nat (batchSize cfg))) \<and>
           Pending \<notin> set (updatePromisesList t) \<and>
           dfd t \<noteq> DfdPending))"
proof (cases "async cfg")
  case True
  from settles_after_all_async[of cfg q e evs s] True show ?thesis
    unfolding dispatch_async[OF True] stateAfter_async[OF True] complete_async[OF True] option.map
    by blast
next
  case False
  have "\<exists>t. dispatch cfg e q = Some t \<and>
           length (ajaxCalls t) = max 1 (ceilDiv (length q) (nat (batchSize cfg))) \<and>
           Pending \<notin> set (updatePromisesList t) \<and>
           dfd t \<noteq> DfdPending"
    if "1 \<le> batchSize cfg" and "1 \<le> concurrency cfg"
    using sync_dispatch[OF False that, of e q]
    by (auto simp: aggregate_empty batchCount_ceilDiv)
  then show ?thesis using False by blast
qed

theorem valid_dispatch_settles_after_all_batches_witness:
  "async oneAtATime \<and>
   map_option dfd (dispatch oneAtATime sampleEnv [''a'', ''b'']) = Some DfdPending \<and>
   1 \<le> batchSize oneAtATime \<and> 1 \<le> concurrency oneAtATime \<and>
   (\<exists>s. stateAfter oneAtATime sampleEnv [''a'', ''b'']
           [Complete 1 (Done ''d2'' ''success''), Complete 0 (Fail ''error'' ''Not Found'')] = Some s \<and>
        dfd s \<noteq> DfdPending) \<and>
   (\<exists>s. stateAfter oneAtATime sampleEnv [''a'', ''b''] [Complete 1 (Done ''d2'' ''success'')] = Some s \<and>
        dfd s = DfdPending \<and>
        (\<exists>i. complete oneAtATime sampleEnv s (Complete i (Done ''d1'' ''success'')) \<noteq> None)) \<and>
   (\<exists>t. dispatch (oneAtATime\<lparr> async := False \<rparr>) sampleEnv [''a'', ''b''] = Some t \<and>
        length (ajaxCalls t) = 2 \<and> dfd t \<noteq> DfdPending)"
proof -
  let ?evs = "[Complete 1 (Done ''d2'' ''success''), Complete 0 (Fail ''error'' ''Not Found'')]"
  let ?evs1 = "[Complete 1 (Done ''d2'' ''success'')]"
  let ?sync = "oneAtATime\<lparr> async := False \<rparr>"
  have b: "1 \<le> batchSize oneAtATime" and c: "1 \<le> concurrency oneAtATime" and a: "async oneAtATime"
    by (simp_all add: oneAtATime_def defaults_def)
  have "asyncRun oneAtATime sampleEnv (asyncDispatch oneAtATime [''a'', ''b'']) ?evs \<noteq> None"
    by (simp add: sched_eval)
  then obtain s where r: "stateAfter oneAtATime sampleEnv [''a'', ''b''] ?evs = Some s"
    unfolding stateAfter_async[OF a] by blast
  have "asyncRun oneAtATime sampleEnv (asyncDispatch oneAtATime [''a'', ''b'']) ?evs1 \<noteq> None"
    by (simp add: sched_eval)
  then obtain s1 where r1: "stateAfter oneAtATime sampleEnv [''a'', ''b''] ?evs1 = Some s1"
    unfolding stateAfter_async[OF a] by blast
  have n: "max 1 (ceilDiv (length [''a'', ''b'']) (nat (batchSize oneAtATime))) = 2"
    by (simp add: ceilDiv_def oneAtATime_def defaults_def)
  from valid_dispatch_settles_after_all_batches[of oneAtATime sampleEnv "[''a'', ''b'']" ?evs s]
  have 1: "map_option dfd (dispatch oneAtATime sampleEnv [''a'', ''b'']) = Some DfdPending"
    and 2: "dfd s \<noteq> DfdPending"
    using a b c r unfolding n by simp_all
  from valid_dispatch_settles_after_all_batches[of oneAtATime sampleEnv "[''a'', ''b'']" ?evs1 s1]
  have 3: "dfd s1 = DfdPending"
    and 4: "\<exists>i. \<forall>oc. complete oneAtATime sampleEnv s1 (Complete i oc) \<noteq> None"
    using a b c r1 unfolding n by simp_all
  from 4 have 5: "\<exists>i. complete oneAtATime sampleEnv s1 (Complete i (Done ''d1'' ''success'')) \<noteq> None"
    by blast
  have b': "1 \<le> batchSize ?sync" and c': "1 \<le> concurrency ?sync" and a': "\<not> async ?sync"
    by (simp_all add: oneAtATime_def defaults_def)
  have n': "max 1 (ceilDiv (length [''a'', ''b'']) (nat (batchSize ?sync))) = 2"
    by (simp add: ceilDiv_def oneAtATime_def defaults_def)
  from valid_dispatch_settles_after_all_batches[of ?sync sampleEnv "[''a'', ''b'']" "[]" s]
  have 6: "\<exists>t. dispatch ?sync sampleEnv [''a'', ''b''] = Some t \<and>
        length (ajaxCalls t) = 2 \<and> dfd t \<noteq> DfdPending"
    using a' b' c' unfolding n' by blast
  show ?thesis using a 1 b c r 2 r1 3 5 6 by blast
qed

text \<open>
  The claim as stated fails: with \<open>batchSize = 0\<close> and one queued update the entry point
  sends two requests, each with an empty batch, and the promise is pending, not failed.
\<close>

theorem invalid_batchSize_is_dispatched:
  \<open>batchSize (defaults\<lparr> batchSize := 0 \<rparr>) \<le> 0 \<and>
   map_option ajaxCalls (dispatch (defaults\<lparr> batchSize := 0 \<rparr>) sampleEnv [''u'']) =
     Some [''<Batch OnError="Continue"></Batch>'', ''<Batch OnError="Continue"></Batch>''] \<and>
   map_option updates (dispatch (defaults\<lparr> batchSize := 0 \<rparr>) sampleEnv [''u'']) = Some [''u''] \<and>
   map_option dfd (dispatch (defaults\<lparr> batchSize := 0 \<rparr>) sampleEnv [''u'']) = Some DfdPending\<close>
proof -
  have "async (defaults\<lparr> batchSize := 0 \<rparr>)" by (simp add: defaults_def)
  then show ?thesis by (simp add: dispatch_async sched_eval wrapBatch_def)
qed

section \<open>The empty queue\<close>

lemma asyncDispatch_empty:
  assumes "1 \<le> concurrency cfg"
  shows "asyncDispatch cfg [] =
           \<lparr> updates = [], updatePromisesList = [Pending], batchProcessingDone = True,
             updatesInFlight = 1, dfd = DfdPending, ajaxCalls = [wrapBatch []],
             inFlightLog = [0, 1] \<rparr>"
  using assms
  by (simp add: asyncDispatch_def initState_def asyncExec_unfold asyncLaunch_def
        getBatchUpdateList_def Let_def)

lemma asyncComplete_empty:
  assumes "1 \<le> concurrency cfg"
  shows "asyncRun cfg e (asyncDispatch cfg []) [Complete 0 oc] =
           Some (resolveUpdateListItems e
             \<lparr> updates = [], updatePromisesList = [settle 0 oc], batchProcessingDone = True,
               updatesInFlight = 0, dfd = DfdPending, ajaxCalls = [wrapBatch []],
               inFlightLog = [0, 1, 0] \<rparr>)"
  by (simp add: asyncDispatch_empty[OF assms] asyncDone_def Let_def)

lemma empty_queue_async:
  assumes "1 \<le> concurrency cfg"
  shows \<open>ajaxCalls (asyncDispatch cfg []) = [''<Batch OnError="Continue"></Batch>''] \<and>
         updatePromisesList (asyncDispatch cfg []) = [Pending] \<and>
         dfd (asyncDispatch cfg []) = DfdPending \<and>
         map_option ajaxCalls (asyncRun cfg e (asyncDispatch cfg []) [Complete 0 oc]) =
           Some [''<Batch OnError="Continue"></Batch>''] \<and>
         map_option dfd (asyncRun cfg e (asyncDispatch cfg []) [Complete 0 (Done d st)]) =
           Some (if doesMsgHaveError e (Doc d)
                 then DfdRejected \<lparr> status = ''error'', message = getMsgError e (Doc d),
                                    httpData = Doc d, xhrRequest = Xhr 0 \<rparr>
                 else DfdResolved \<lparr> status = ''success'', message = Str ''Update Successful.'',
                                    httpData = Doc d, xhrRequest = Xhr 0 \<rparr>) \<and>
         map_option dfd (asyncRun cfg e (asyncDispatch cfg []) [Complete 0 (Fail ts err)]) =
           Some (DfdRejected \<lparr> status = ''error'',
                               message = (if ts \<noteq> [] then Str ts else Str ''HTTP error.''),
                               httpData = Str err, xhrRequest = Str err \<rparr>)\<close>
proof -
  have w: \<open>wrapBatch [] = ''<Batch OnError="Continue"></Batch>''\<close>
    by (simp add: wrapBatch_def)
  have a: \<open>ajaxCalls (asyncDispatch cfg []) = [''<Batch OnError="Continue"></Batch>'']\<close>
    "updatePromisesList (asyncDispatch cfg []) = [Pending]"
    "dfd (asyncDispatch cfg []) = DfdPending"
    by (simp_all add: asyncDispatch_empty[OF assms] w)
  have c: \<open>map_option ajaxCalls (asyncRun cfg e (asyncDispatch cfg []) [Complete 0 oc]) =
           Some [''<Batch OnError="Continue"></Batch>'']\<close> for oc
    unfolding asyncComplete_empty[OF assms]
    by (subst resolveUpdateListItems_frame) (simp add: w)
  have d: "map_option dfd (asyncRun cfg e (asyncDispatch cfg []) [Complete 0 oc]) =
             Some (aggregate e [settle 0 oc])" for oc
    unfolding asyncComplete_empty[OF assms]
    by (simp add: resolveUpdateListItems_aggregate)
  show ?thesis
    using a c[of oc] d[of "Done d st"] d[of "Fail ts err"]
    by (simp add: aggregate_single_done aggregate_single_fail)
qed

text \<open>
  Claim C4, amended. With zero operations, asynchronous requests and a concurrency of at
  least 1 (any batch size), the entry point makes exactly one transport call, carrying
  the empty batch, and returns with the promise pending. The promise is settled when that
  call completes: with status success if the call succeeds and its payload encodes no
  error, with status error otherwise. No further call is made.
\<close>

theorem empty_queue_sends_one_empty_batch:
  assumes "async cfg" and "1 \<le> concurrency cfg"
  shows \<open>map_option ajaxCalls (dispatch cfg e []) = Some [''<Batch OnError="Continue"></Batch>''] \<and>
         map_option updatePromisesList (dispatch cfg e []) = Some [Pending] \<and>
         map_option dfd (dispatch cfg e []) = Some DfdPending \<and>
         map_option ajaxCalls (stateAfter cfg e [] [Complete 0 oc]) =
           Some [''<Batch OnError="Continue"></Batch>''] \<and>
         map_option dfd (stateAfter cfg e [] [Complete 0 (Done d st)]) =
           Some (if doesMsgHaveError e (Doc d)
                 then DfdRejected \<lparr> status = ''error'', message = getMsgError e (Doc d),
                                    httpData = Doc d, xhrRequest = Xhr 0 \<rparr>
                 else DfdResolved \<lparr> status = ''success'', message = Str ''Update Successful.'',
                                    httpData = Doc d, xhrRequest = Xhr 0 \<rparr>) \<and>
         map_option dfd (stateAfter cfg e [] [Complete 0 (Fail ts err)]) =
           Some (DfdRejected \<lparr> status = ''error'',
                               message = (if ts \<noteq> [] then Str ts else Str ''HTTP error.''),
                               httpData = Str err, xhrRequest = Str err \<rparr>)\<close>
  using empty_queue_async[OF assms(2), where e = e and oc = oc and d = d and st = st
          and ts = ts and err = err]
  unfolding dispatch_async[OF assms(1)] stateAfter_async[OF assms(1)] option.map
  by blast

theorem empty_queue_sends_one_empty_batch_witness:
  \<open>async defaults \<and> 1 \<le> concurrency defaults \<and>
   map_option ajaxCalls (dispatch defaults sampleEnv []) = Some [''<Batch OnError="Continue"></Batch>''] \<and>
   map_option dfd (stateAfter defaults sampleEnv [] [Complete 0 (Done ''ok'' ''success'')]) =
     Some (DfdResolved \<lparr> status = ''success'', message = Str ''Update Successful.'',
                        httpData = Doc ''ok'', xhrRequest = Xhr 0 \<rparr>) \<and>
   map_option dfd (stateAfter defaults sampleEnv [] [Complete 0 (Fail ''error'' ''Not Found'')]) =
     Some (DfdRejected \<lparr> status = ''error'', message = Str ''error'',
                        httpData = Str ''Not Found'', xhrRequest = Str ''Not Found'' \<rparr>)\<close>
proof -
  have a: "async defaults" and c: "1 \<le> concurrency defaults" by (simp_all add: defaults_def)
  have n: "\<not> doesMsgHaveError sampleEnv (Doc ''ok'')" by (simp add: sampleEnv_def)
  have i: "(if ''error'' \<noteq> [] then Str ''error'' else Str ''HTTP error.'') = Str ''error''"
    by simp
  note t = empty_queue_sends_one_empty_batch[OF a c, where e = sampleEnv and d = "''ok''"
         and st = "''success''" and ts = "''error''" and err = "''Not Found''"]
  show ?thesis using t a c unfolding if_not_P[OF n] i by blast
qed

text \<open>
  The claim as stated fails: with the default options and no operation, one request is
  sent and the promise is pending when the entry point returns.
\<close>

theorem empty_queue_makes_a_transport_call:
  \<open>map_option ajaxCalls (dispatch defaults sampleEnv []) = Some [''<Batch OnError="Continue"></Batch>''] \<and>
   map_option updatesInFlight (dispatch defaults sampleEnv []) = Some 1 \<and>
   map_option dfd (dispatch defaults sampleEnv []) = Some DfdPending\<close>
proof -
  have "async defaults" by (simp add: defaults_def)
  then show ?thesis by (simp add: dispatch_async sched_eval wrapBatch_def)
qed

section \<open>The error directive of a batch\<close>

text \<open>
  Claim C6. The documentation of \<^verbatim>\<open>options.updateOnError\<close> says that the value is used on the
  Batch element. The code does not: with \<open>updateOnError = Return\<close> the batch sent still
  carries \<open>OnError="Continue"\<close>, whether the request is asynchronous or synchronous.
\<close>

theorem updateOnError_Return_is_sent_as_Continue:
  \<open>map_option ajaxCalls
      (dispatch (defaults\<lparr> updateOnError := ''Return'', async := a \<rparr>) e
         [''<Method ID="1" Cmd="Update"><Field Name="ID">3</Field></Method>'']) =
   Some [''<Batch OnError="Continue"><Method ID="1" Cmd="Update"><Field Name="ID">3</Field></Method></Batch>'']\<close>
proof (cases a)
  case True
  then have "async (defaults\<lparr> updateOnError := ''Return'', async := a \<rparr>)" by simp
  then show ?thesis using True by (simp add: dispatch_async sched_eval wrapBatch_def)
next
  case False
  let ?cfg = "defaults\<lparr> updateOnError := ''Return'', async := a \<rparr>"
  have "\<not> async ?cfg" and "1 \<le> batchSize ?cfg" and "1 \<le> concurrency ?cfg"
    using False by (simp_all add: defaults_def)
  from sync_dispatch[OF this, of e
      \<open>[''<Method ID="1" Cmd="Update"><Field Name="ID">3</Field></Method>'']\<close>]
  show ?thesis
    by (auto simp: defaults_def batchCount_def batchText_def batchAt_def wrapBatch_def)
qed

section \<open>The result of a completed dispatch\<close>

lemma settled_promises:
  assumes "1 \<le> batchSize cfg" and "1 \<le> concurrency cfg"
      and "asyncRun cfg e (asyncDispatch cfg q) evs = Some s" and "dfd s \<noteq> DfdPending"
  shows "length (updatePromisesList s) = max 1 (ceilDiv (length q) (nat (batchSize cfg))) \<and>
         (\<forall>i < length (updatePromisesList s).
            \<exists>oc. outcomeOf evs i = Some oc \<and> updatePromisesList s ! i = settle i oc) \<and>
         (\<forall>i. outcomeOf evs i \<noteq> None \<longrightarrow> i < length (updatePromisesList s)) \<and>
         dfd s = aggregate e (updatePromisesList s) \<and>
         distinct (map evIndex evs)"
proof -
  note f = asyncRun_facts[OF assms(1,2,3)]
  have "length evs = batchCount (length q) (nat (batchSize cfg))" using f(4) assms(4) by simp
  then have L: "length (updatePromisesList s) = max 1 (ceilDiv (length q) (nat (batchSize cfg)))"
    using f(2) by (simp add: batchCount_ceilDiv)
  have pz: "pendingCount (updatePromisesList s) = 0" using f(5) assms(4) by simp
  have "\<forall>i. outcomeOf evs i \<noteq> None \<longrightarrow> i < length (updatePromisesList s)"
    using f(7) by (metis hist_def not_le)
  moreover have "distinct (map evIndex evs)" using f(7) by (simp add: hist_def)
  ultimately show ?thesis
    using L hist_settled[OF f(7) pz] f(6)[OF assms(4)] by blast
qed

lemma aggregate_all_done:
  assumes "ps \<noteq> []"
      and "\<forall>i < length ps. \<exists>d st. ps ! i = Resolved [Doc (ds ! i), Str st, Xhr i]"
      and "length ds = length ps"
  shows "aggregate e ps =
     (if filter (doesMsgHaveError e) (map Doc ds) = []
      then DfdResolved \<lparr> status = ''success'', message = Str ''Update Successful.'',
             httpData = (if length ps = 1 then Doc (ds ! 0) else Arr (map Doc ds)),
             xhrRequest = (if length ps = 1 then Xhr 0 else Arr (map Xhr [0..<length ps])) \<rparr>
      else DfdRejected \<lparr> status = ''error'',
             message = getMsgError e (last (filter (doesMsgHaveError e) (map Doc ds))),
             httpData = (if length ps = 1 then Doc (ds ! 0) else Arr (map Doc ds)),
             xhrRequest = (if length ps = 1 then Xhr 0 else Arr (map Xhr [0..<length ps])) \<rparr>)"
proof (cases "length ps = 1")
  case True
  then obtain p where p: "ps = [p]" by (cases ps) auto
  obtain d where d: "ds = [d]" using assms(3) True by (cases ds) auto
  obtain st where "p = Resolved [Doc d, Str st, Xhr 0]"
    using assms(2) p d by auto
  then show ?thesis unfolding p d by (simp add: aggregate_single_done)
next
  case False
  moreover have "length ps \<noteq> 0" using assms(1) by simp
  ultimately have two: "2 \<le> length ps" by linarith
  define argss where "argss = map (\<lambda>p. case p of Resolved a \<Rightarrow> a | _ \<Rightarrow> []) ps"
  have la: "length argss = length ps" by (simp add: argss_def)
  have nth: "\<exists>st. argss ! i = [Doc (ds ! i), Str st, Xhr i]" if "i < length ps" for i
    using assms(2) that by (auto simp: argss_def)
  have eq: "ps = map Resolved argss"
  proof (rule nth_equalityI)
    show "length ps = length (map Resolved argss)" by (simp add: la)
  next
    fix i assume i: "i < length ps"
    then obtain d st where "ps ! i = Resolved [Doc (ds ! i), Str st, Xhr i]"
      using assms(2) by blast
    then show "ps ! i = map Resolved argss ! i" using i by (simp add: argss_def)
  qed
  have len: "\<forall>a \<in> set argss. 1 < length a"
  proof
    fix a assume "a \<in> set argss"
    then obtain i where "i < length ps" "a = argss ! i" by (metis in_set_conv_nth la)
    then show "1 < length a" using nth by fastforce
  qed
  have docs: "map (\<lambda>a. arr_get a 0) argss = map Doc ds"
  proof (rule nth_equalityI)
    show "length (map (\<lambda>a. arr_get a 0) argss) = length (map Doc ds)"
      by (simp add: la assms(3))
  next
    fix i assume "i < length (map (\<lambda>a. arr_get a 0) argss)"
    then have i: "i < length ps" by (simp add: la)
    then obtain st where "argss ! i = [Doc (ds ! i), Str st, Xhr i]" using nth by blast
    then show "map (\<lambda>a. arr_get a 0) argss ! i = map Doc ds ! i"
      using i by (simp add: la assms(3) arr_get_def)
  qed
  have xhrs: "map (\<lambda>a. arr_get a 2) argss = map Xhr [0..<length ps]"
  proof (rule nth_equalityI)
    show "length (map (\<lambda>a. arr_get a 2) argss) = length (map Xhr [0..<length ps])"
      by (simp add: la)
  next
    fix i assume "i < length (map (\<lambda>a. arr_get a 2) argss)"
    then have i: "i < length ps" by (simp add: la)
    then obtain st where "argss ! i = [Doc (ds ! i), Str st, Xhr i]" using nth by blast
    then show "map (\<lambda>a. arr_get a 2) argss ! i = map Xhr [0..<length ps] ! i"
      using i by (simp add: la arr_get_def)
  qed
  have "2 \<le> length argss" using two la by simp
  from aggregate_multi_done[OF this len, of e] show ?thesis
    unfolding eq[symmetric] docs xhrs using False by simp
qed

lemma all_done_promises:
  assumes "\<forall>i < length ps. \<exists>oc. outcomeOf evs i = Some oc \<and> ps ! i = settle i oc"
      and "\<forall>i st err. Complete i (Fail st err) \<notin> set evs"
  shows "\<forall>i < length ps. \<exists>d st. ps ! i = Resolved [Doc (map (\<lambda>i. case outcomeOf evs i of Some (Done d st) \<Rightarrow> d | _ \<Rightarrow> []) [0..<length ps] ! i), Str st, Xhr i]"
proof (intro allI impI)
  fix i assume i: "i < length ps"
  then obtain oc where oc: "outcomeOf evs i = Some oc" "ps ! i = settle i oc"
    using assms(1) by blast
  then have "Complete i oc \<in> set evs" by (simp add: outcomeOf_in_set)
  then obtain d st where "oc = Done d st" using assms(2) by (cases oc) auto
  then show "\<exists>d st. ps ! i = Resolved [Doc (map (\<lambda>i. case outcomeOf evs i of Some (Done d st) \<Rightarrow> d | _ \<Rightarrow> []) [0..<length ps] ! i), Str st, Xhr i]"
    using oc i by simp
qed

lemma all_done_docs:
  assumes "\<forall>i < n. \<exists>oc. outcomeOf evs i = Some oc \<and> ps ! i = settle i oc"
      and "\<forall>i st err. Complete i (Fail st err) \<notin> set evs"
  shows "map Doc (map (\<lambda>i. case outcomeOf evs i of Some (Done d st) \<Rightarrow> d | _ \<Rightarrow> []) [0..<n]) =
         map (dataOf evs) [0..<n]"
proof (rule nth_equalityI)
  show "length (map Doc (map (\<lambda>i. case outcomeOf evs i of Some (Done d st) \<Rightarrow> d | _ \<Rightarrow> []) [0..<n])) =
        length (map (dataOf evs) [0..<n])" by simp
next
  fix i assume "i < length (map Doc (map (\<lambda>i. case outcomeOf evs i of Some (Done d st) \<Rightarrow> d | _ \<Rightarrow> []) [0..<n]))"
  then have i: "i < n" by simp
  then obtain oc where oc: "outcomeOf evs i = Some oc" using assms(1) by blast
  then have "Complete i oc \<in> set evs" by (simp add: outcomeOf_in_set)
  then obtain d st where "oc = Done d st" using assms(2) by (cases oc) auto
  then show "map Doc (map (\<lambda>i. case outcomeOf evs i of Some (Done d st) \<Rightarrow> d | _ \<Rightarrow> []) [0..<n]) ! i =
        map (dataOf evs) [0..<n] ! i"
    using i oc by (simp add: dataOf_def)
qed

lemma completed_all_done:
  assumes "1 \<le> batchSize cfg" and "1 \<le> concurrency cfg"
      and "asyncRun cfg e (asyncDispatch cfg q) evs = Some s" and "dfd s \<noteq> DfdPending"
      and "\<forall>i st err. Complete i (Fail st err) \<notin> set evs"
      and "N = max 1 (ceilDiv (length q) (nat (batchSize cfg)))"
  shows "dfd s =
     (if filter (doesMsgHaveError e) (map (dataOf evs) [0..<N]) = []
      then DfdResolved \<lparr> status = ''success'', message = Str ''Update Successful.'',
             httpData = (if N = 1 then dataOf evs 0 else Arr (map (dataOf evs) [0..<N])),
             xhrRequest = (if N = 1 then Xhr 0 else Arr (map Xhr [0..<N])) \<rparr>
      else DfdRejected \<lparr> status = ''error'',
             message = getMsgError e (last (filter (doesMsgHaveError e) (map (dataOf evs) [0..<N]))),
             httpData = (if N = 1 then dataOf evs 0 else Arr (map (dataOf evs) [0..<N])),
             xhrRequest = (if N = 1 then Xhr 0 else Arr (map Xhr [0..<N])) \<rparr>)"
proof -
  define ps where "ps = updatePromisesList s"
  define ds where "ds = map (\<lambda>i. case outcomeOf evs i of Some (Done d st) \<Rightarrow> d | _ \<Rightarrow> []) [0..<length ps]"
  note sp = settled_promises[OF assms(1-4)]
  have L: "length ps = N" using sp assms(6) by (simp add: ps_def)
  have se: "\<forall>i < length ps. \<exists>oc. outcomeOf evs i = Some oc \<and> ps ! i = settle i oc"
    using sp by (simp add: ps_def)
  have ne: "ps \<noteq> []" using L assms(6) by auto
  have sh: "\<forall>i < length ps. \<exists>d st. ps ! i = Resolved [Doc (ds ! i), Str st, Xhr i]"
    unfolding ds_def using all_done_promises[OF se assms(5)] .
  have ld: "length ds = length ps" by (simp add: ds_def)
  have docs: "map Doc ds = map (dataOf evs) [0..<N]"
    unfolding ds_def L using all_done_docs[of N evs ps] se assms(5) L by simp
  have d0: "Doc (ds ! 0) = dataOf evs 0" if "N = 1"
  proof -
    have "map Doc ds ! 0 = map (dataOf evs) [0..<N] ! 0" using docs by simp
    then show ?thesis using that ld L by simp
  qed
  have "dfd s = aggregate e ps" using sp by (simp add: ps_def)
  then show ?thesis
    using aggregate_all_done[OF ne sh ld, of e] d0 unfolding docs L by auto
qed

lemma two_promises:
  assumes "length ps = 2" and "ps ! 0 = p0" and "ps ! 1 = p1"
  shows "ps = [p0, p1]"
proof -
  obtain a b where "ps = [a, b]"
    using assms(1) by (cases ps; cases "tl ps") auto
  then show ?thesis using assms(2,3) by simp
qed

lemma completed_two:
  assumes "1 \<le> batchSize cfg" and "1 \<le> concurrency cfg"
      and "asyncRun cfg e (asyncDispatch cfg q) [Complete i oc, Complete j oc'] = Some s"
      and "max 1 (ceilDiv (length q) (nat (batchSize cfg))) = 2"
  shows "dfd s = aggregate e [settle 0 (if i = 0 then oc else oc'), settle 1 (if i = 1 then oc else oc')]"
proof -
  define evs where "evs = [Complete i oc, Complete j oc']"
  define ps where "ps = updatePromisesList s"
  have r: "asyncRun cfg e (asyncDispatch cfg q) evs = Some s" using assms(3) by (simp add: evs_def)
  have d: "dfd s \<noteq> DfdPending"
    using asyncRun_facts(4)[OF assms(1,2) r] assms(4) by (simp add: batchCount_ceilDiv evs_def)
  note sp = settled_promises[OF assms(1,2) r d]
  have spL: "length (updatePromisesList s) = max 1 (ceilDiv (length q) (nat (batchSize cfg)))"
    and spB: "\<forall>i < length (updatePromisesList s).
            \<exists>oc. outcomeOf evs i = Some oc \<and> updatePromisesList s ! i = settle i oc"
    and spC: "\<forall>i. outcomeOf evs i \<noteq> None \<longrightarrow> i < length (updatePromisesList s)"
    using sp by blast+
  have L: "length ps = 2" using spL assms(4) by (simp add: ps_def)
  have B: "\<exists>oc. outcomeOf evs k = Some oc \<and> ps ! k = settle k oc" if "k < 2" for k
    using spB[rule_format, of k] that L by (simp add: ps_def)
  have C: "k < 2" if "outcomeOf evs k \<noteq> None" for k
    using spC[rule_format, of k] that L by (simp add: ps_def)
  have di: "i \<noteq> j" using sp by (simp add: evs_def)
  have "outcomeOf evs i \<noteq> None" by (simp add: evs_def)
  then have i2: "i < 2" by (rule C)
  have "outcomeOf evs j \<noteq> None" by (simp add: evs_def)
  then have j2: "j < 2" by (rule C)
  have ij: "(i = 0 \<and> j = 1) \<or> (i = 1 \<and> j = 0)" using i2 j2 di by linarith
  obtain o0 where o0: "outcomeOf evs 0 = Some o0" "ps ! 0 = settle 0 o0"
    using B[of 0] by auto
  obtain o1 where o1: "outcomeOf evs 1 = Some o1" "ps ! 1 = settle 1 o1"
    using B[of 1] by auto
  have e0: "o0 = (if i = 0 then oc else oc')" using o0(1) ij by (auto simp: evs_def)
  have e1: "o1 = (if i = 1 then oc else oc')" using o1(1) ij by (auto simp: evs_def)
  have "ps = [settle 0 o0, settle 1 o1]" using two_promises[OF L o0(2) o1(2)] .
  moreover have "dfd s = aggregate e ps" using sp by (simp add: ps_def)
  ultimately show ?thesis using e0 e1 by simp
qed

lemma aggregate_done_fail:
  "aggregate e [Resolved [Doc d, Str st, Xhr 0], Rejected [Xhr 1, Str ts, Str err]] =
     DfdRejected \<lparr> status = ''error'',
       message = (if 1 < length err then Str [err ! 1] else Str ''HTTP error.''),
       httpData = Arr [Undefined, if 2 < length ts then Str [ts ! 2] else Undefined,
                       if 2 < length err then Str [err ! 2] else Undefined],
       xhrRequest = Arr [Undefined, if 2 < length ts then Str [ts ! 2] else Undefined,
                         if 2 < length err then Str [err ! 2] else Undefined] \<rparr>"
proof -
  let ?ps = "[Resolved [Doc d, Str st, Xhr 0], Rejected [Xhr 1, Str ts, Str err]]"
  have "\<forall>p \<in> set ?ps. isRejected p \<longrightarrow> (\<exists>i st err. p = Rejected [Xhr i, Str st, Str err])"
    by simp
  from aggregate_multi_fail[of ?ps e, OF _ _ this] show ?thesis by simp
qed

lemma completed_some_fail:
  assumes "1 \<le> batchSize cfg" and "1 \<le> concurrency cfg"
      and "asyncRun cfg e (asyncDispatch cfg q) evs = Some s" and "dfd s \<noteq> DfdPending"
      and "Complete i (Fail ts err) \<in> set evs"
  shows "\<exists>r. dfd s = DfdRejected r \<and> status r = ''error'' \<and>
           (max 1 (ceilDiv (length q) (nat (batchSize cfg))) = 1 \<longrightarrow>
              r = \<lparr> status = ''error'',
                    message = (if ts \<noteq> [] then Str ts else Str ''HTTP error.''),
                    httpData = Str err, xhrRequest = Str err \<rparr>)"
proof -
  define ps where "ps = updatePromisesList s"
  define N where "N = max 1 (ceilDiv (length q) (nat (batchSize cfg)))"
  note sp = settled_promises[OF assms(1-4)]
  have spL: "length ps = N"
    and spB: "\<forall>i < length ps. \<exists>oc. outcomeOf evs i = Some oc \<and> ps ! i = settle i oc"
    and spC: "\<forall>i. outcomeOf evs i \<noteq> None \<longrightarrow> i < length ps"
    and spD: "dfd s = aggregate e ps"
    and spE: "distinct (map evIndex evs)"
    using sp unfolding ps_def N_def by blast+
  have o: "outcomeOf evs i = Some (Fail ts err)"
    using outcomeOf_mem[OF spE assms(5)] .
  then have i: "i < length ps" using spC by simp
  have pi: "ps ! i = Rejected [Xhr i, Str ts, Str err]"
    using spB[rule_format, OF i] o by auto
  have main: "\<exists>r. dfd s = DfdRejected r \<and> status r = ''error'' \<and>
           (N = 1 \<longrightarrow>
              r = \<lparr> status = ''error'',
                    message = (if ts \<noteq> [] then Str ts else Str ''HTTP error.''),
                    httpData = Str err, xhrRequest = Str err \<rparr>)"
  proof (cases "N = 1")
    case True
    then have "i = 0" using i spL by simp
    moreover obtain p where "ps = [p]" using spL True by (cases ps) auto
    ultimately have "ps = [Rejected [Xhr 0, Str ts, Str err]]" using pi by simp
    then show ?thesis using spD by (simp add: aggregate_single_fail)
  next
    case False
    moreover have "1 \<le> N" by (simp add: N_def)
    ultimately have two: "2 \<le> length ps" using spL by linarith
    have "ps ! i \<in> set ps" using i by simp
    moreover have "isRejected (ps ! i)" using pi by simp
    ultimately have ne: "filter isRejected ps \<noteq> []"
      unfolding filter_empty_conv by blast
    have sh: "\<forall>p \<in> set ps. isRejected p \<longrightarrow> (\<exists>i st err. p = Rejected [Xhr i, Str st, Str err])"
    proof (intro ballI impI)
      fix p assume "p \<in> set ps" and rj: "isRejected p"
      then obtain k where k: "k < length ps" "p = ps ! k" by (metis in_set_conv_nth)
      then obtain oc where "p = settle k oc" using spB by auto
      then show "\<exists>i st err. p = Rejected [Xhr i, Str st, Str err]"
        using rj by (cases oc) auto
    qed
    from aggregate_multi_fail[OF two ne sh, of e]
    obtain r where "aggregate e ps = DfdRejected r" "status r = ''error''" by auto
    then show ?thesis using spD False by auto
  qed
  then show ?thesis unfolding N_def .
qed

lemma dataOf_not_Arr: "\<not> isArr (dataOf evs i)"
  by (simp add: dataOf_def split: option.split outcome.split)

lemma aggregate_done_done:
  "aggregate e [Resolved [Doc d0, Str s0, Xhr 0], Resolved [Doc d1, Str s1, Xhr 1]] =
     (if filter (doesMsgHaveError e) [Doc d0, Doc d1] = []
      then DfdResolved \<lparr> status = ''success'', message = Str ''Update Successful.'',
                         httpData = Arr [Doc d0, Doc d1], xhrRequest = Arr [Xhr 0, Xhr 1] \<rparr>
      else DfdRejected \<lparr> status = ''error'',
                         message = getMsgError e (last (filter (doesMsgHaveError e) [Doc d0, Doc d1])),
                         httpData = Arr [Doc d0, Doc d1], xhrRequest = Arr [Xhr 0, Xhr 1] \<rparr>)"
  using aggregate_multi_done[of "[[Doc d0, Str s0, Xhr 0], [Doc d1, Str s1, Xhr 1]]" e]
  by (simp add: arr_get_def)

section \<open>Transport failures\<close>

text \<open>
  Claim C2. The message of a failed transport call is lost when more than one batch was
  sent. Two batches, asynchronous requests, the first succeeds, the second fails with
  \<open>timeout\<close>: the aggregated message is \<open>i\<close>, the second character of the error text, and
  \<open>httpData\<close> and \<open>xhrRequest\<close> have three entries for two requests, because the \<^verbatim>\<open>fail\<close>
  callback of \<^verbatim>\<open>$.when\<close> receives the three arguments of the one rejected request and the
  loop reads each of them as if it were a request's argument list. When the same failure
  is that of a single batch, the message is its text status.
\<close>

theorem multi_batch_failure_message_is_garbled:
  "map_option dfd (stateAfter oneAtATime sampleEnv [''a'', ''b'']
      [Complete 0 (Done ''ok'' ''success''), Complete 1 (Fail ''timeout'' ''timeout'')]) =
   Some (DfdRejected \<lparr> status = ''error'', message = Str ''i'',
                       httpData = Arr [Undefined, Str ''m'', Str ''m''],
                       xhrRequest = Arr [Undefined, Str ''m'', Str ''m''] \<rparr>) \<and>
   map_option dfd (stateAfter defaults sampleEnv [''a'', ''b'']
      [Complete 0 (Fail ''timeout'' ''timeout'')]) =
   Some (DfdRejected \<lparr> status = ''error'', message = Str ''timeout'',
                       httpData = Str ''timeout'', xhrRequest = Str ''timeout'' \<rparr>)"
proof -
  let ?evs = "[Complete 0 (Done ''ok'' ''success''), Complete 1 (Fail ''timeout'' ''timeout'')]"
  let ?evs1 = "[Complete 0 (Fail ''timeout'' ''timeout'')]"
  have b: "1 \<le> batchSize oneAtATime" and c: "1 \<le> concurrency oneAtATime" and a: "async oneAtATime"
    by (simp_all add: oneAtATime_def defaults_def)
  have "asyncRun oneAtATime sampleEnv (asyncDispatch oneAtATime [''a'', ''b'']) ?evs \<noteq> None"
    by (simp add: sched_eval)
  then obtain s where r: "asyncRun oneAtATime sampleEnv (asyncDispatch oneAtATime [''a'', ''b'']) ?evs = Some s"
    by blast
  have n: "max 1 (ceilDiv (length [''a'', ''b'']) (nat (batchSize oneAtATime))) = 2"
    by (simp add: ceilDiv_def oneAtATime_def defaults_def)
  have ds: "dfd s = DfdRejected \<lparr> status = ''error'', message = Str ''i'',
                       httpData = Arr [Undefined, Str ''m'', Str ''m''],
                       xhrRequest = Arr [Undefined, Str ''m'', Str ''m''] \<rparr>"
    using completed_two[OF b c r n]
      aggregate_done_fail[of sampleEnv "''ok''" "''success''" "''timeout''" "''timeout''"]
    by simp
  have 1: "map_option dfd (stateAfter oneAtATime sampleEnv [''a'', ''b''] ?evs) =
             Some (DfdRejected \<lparr> status = ''error'', message = Str ''i'',
                       httpData = Arr [Undefined, Str ''m'', Str ''m''],
                       xhrRequest = Arr [Undefined, Str ''m'', Str ''m''] \<rparr>)"
    by (simp only: stateAfter_async[OF a] r option.map ds)
  have b1: "1 \<le> batchSize defaults" and c1: "1 \<le> concurrency defaults" and a1: "async defaults"
    by (simp_all add: defaults_def)
  have "asyncRun defaults sampleEnv (asyncDispatch defaults [''a'', ''b'']) ?evs1 \<noteq> None"
    by (simp add: sched_eval)
  then obtain s1 where r1: "asyncRun defaults sampleEnv (asyncDispatch defaults [''a'', ''b'']) ?evs1 = Some s1"
    by blast
  have n1: "max 1 (ceilDiv (length [''a'', ''b'']) (nat (batchSize defaults))) = 1"
    by (simp add: ceilDiv_def defaults_def)
  have d1: "dfd s1 \<noteq> DfdPending"
    using asyncRun_facts(4)[OF b1 c1 r1] n1 by (simp add: batchCount_ceilDiv)
  have m1: "Complete 0 (Fail ''timeout'' ''timeout'') \<in> set ?evs1" by simp
  from completed_some_fail[OF b1 c1 r1 d1 m1] n1
  have ds1: "dfd s1 = DfdRejected \<lparr> status = ''error'', message = Str ''timeout'',
                       httpData = Str ''timeout'', xhrRequest = Str ''timeout'' \<rparr>"
    by auto
  have 2: "map_option dfd (stateAfter defaults sampleEnv [''a'', ''b''] ?evs1) =
             Some (DfdRejected \<lparr> status = ''error'', message = Str ''timeout'',
                       httpData = Str ''timeout'', xhrRequest = Str ''timeout'' \<rparr>)"
    by (simp only: stateAfter_async[OF a1] r1 option.map ds1)
  show ?thesis using 1 2 by blast
qed

section \<open>The shape of the response fields\<close>

lemma response_fields_async:
  assumes "1 \<le> batchSize cfg" and "1 \<le> concurrency cfg"
      and "asyncRun cfg e (asyncDispatch cfg q) evs = Some s" and "dfd s \<noteq> DfdPending"
  shows "\<exists>r. (dfd s = DfdResolved r \<or> dfd s = DfdRejected r) \<and>
           (max 1 (ceilDiv (length q) (nat (batchSize cfg))) = 1 \<longrightarrow>
              \<not> isArr (httpData r) \<and> \<not> isArr (xhrRequest r)) \<and>
           (1 < max 1 (ceilDiv (length q) (nat (batchSize cfg))) \<and>
            (\<forall>i ts err. Complete i (Fail ts err) \<notin> set evs) \<longrightarrow>
              httpData r = Arr (map (dataOf evs) [0..<max 1 (ceilDiv (length q) (nat (batchSize cfg)))]) \<and>
              xhrRequest r = Arr (map Xhr [0..<max 1 (ceilDiv (length q) (nat (batchSize cfg)))]))"
proof -
  define N where "N = max 1 (ceilDiv (length q) (nat (batchSize cfg)))"
  have main: "\<exists>r. (dfd s = DfdResolved r \<or> dfd s = DfdRejected r) \<and>
           (N = 1 \<longrightarrow> \<not> isArr (httpData r) \<and> \<not> isArr (xhrRequest r)) \<and>
           (1 < N \<and> (\<forall>i ts err. Complete i (Fail ts err) \<notin> set evs) \<longrightarrow>
              httpData r = Arr (map (dataOf evs) [0..<N]) \<and>
              xhrRequest r = Arr (map Xhr [0..<N]))"
  proof (cases "\<forall>i ts err. Complete i (Fail ts err) \<notin> set evs")
    case True
    define h where "h = (if N = 1 then dataOf evs 0 else Arr (map (dataOf evs) [0..<N]))"
    define x where "x = (if N = 1 then Xhr 0 else Arr (map Xhr [0..<N]))"
    have hx: "N = 1 \<longrightarrow> \<not> isArr h \<and> \<not> isArr x"
      "1 < N \<longrightarrow> h = Arr (map (dataOf evs) [0..<N]) \<and> x = Arr (map Xhr [0..<N])"
      by (simp_all add: h_def x_def dataOf_not_Arr)
    from completed_all_done[OF assms True N_def, of ]
    have "\<exists>st m. dfd s = DfdResolved \<lparr> status = st, message = m, httpData = h, xhrRequest = x \<rparr> \<or>
                 dfd s = DfdRejected \<lparr> status = st, message = m, httpData = h, xhrRequest = x \<rparr>"
      unfolding h_def[symmetric] x_def[symmetric] by (metis (full_types))
    then obtain st m where
      "dfd s = DfdResolved \<lparr> status = st, message = m, httpData = h, xhrRequest = x \<rparr> \<or>
       dfd s = DfdRejected \<lparr> status = st, message = m, httpData = h, xhrRequest = x \<rparr>"
      by blast
    then show ?thesis using hx
      by (intro exI[of _ "\<lparr> status = st, message = m, httpData = h, xhrRequest = x \<rparr>"]) simp
  next
    case False
    then obtain i ts err where m: "Complete i (Fail ts err) \<in> set evs" by blast
    from completed_some_fail[OF assms m] obtain r where r:
      "dfd s = DfdRejected r"
      "N = 1 \<longrightarrow> r = \<lparr> status = ''error'',
                    message = (if ts \<noteq> [] then Str ts else Str ''HTTP error.''),
                    httpData = Str err, xhrRequest = Str err \<rparr>"
      unfolding N_def by blast
    have "\<not> isArr (httpData r) \<and> \<not> isArr (xhrRequest r)" if "N = 1"
    proof -
      have "r = \<lparr> status = ''error'',
                    message = (if ts \<noteq> [] then Str ts else Str ''HTTP error.''),
                    httpData = Str err, xhrRequest = Str err \<rparr>"
        using r(2) that by blast
      then show ?thesis by simp
    qed
    then show ?thesis using r(1) False by blast
  qed
  then show ?thesis unfolding N_def .
qed

lemma upt_0_2: "[0..<2] = [0, 1]"
  by (simp add: numeral_2_eq_2)

lemma sample_two_done:
  assumes "asyncRun oneAtATime sampleEnv (asyncDispatch oneAtATime [''a'', ''b''])
             [Complete i (Done d st), Complete j (Done d' st')] = Some s"
  shows "dfd s = aggregate sampleEnv
           [Resolved [Doc (if i = 0 then d else d'), Str (if i = 0 then st else st'), Xhr 0],
            Resolved [Doc (if i = 1 then d else d'), Str (if i = 1 then st else st'), Xhr 1]]"
proof -
  have b: "1 \<le> batchSize oneAtATime" and c: "1 \<le> concurrency oneAtATime"
    by (simp_all add: oneAtATime_def defaults_def)
  have n: "max 1 (ceilDiv (length [''a'', ''b'']) (nat (batchSize oneAtATime))) = 2"
    by (simp add: ceilDiv_def oneAtATime_def defaults_def)
  have "dfd s = aggregate sampleEnv
          [settle 0 (if i = 0 then Done d st else Done d' st'),
           settle 1 (if i = 1 then Done d st else Done d' st')]"
    using completed_two[OF b c assms n] .
  moreover have "settle 0 (if i = 0 then Done d st else Done d' st') =
      Resolved [Doc (if i = 0 then d else d'), Str (if i = 0 then st else st'), Xhr 0]"
    by simp
  moreover have "settle 1 (if i = 1 then Done d st else Done d' st') =
      Resolved [Doc (if i = 1 then d else d'), Str (if i = 1 then st else st'), Xhr 1]"
    by simp
  ultimately show ?thesis by (simp only:)
qed

text \<open>
  Claim C7, amended. With asynchronous requests, a completed dispatch with a valid
  configuration has settled the promise with one response. If exactly one batch was
  submitted, \<open>httpData\<close> and \<open>xhrRequest\<close> are single values, not sequences. If more than one
  batch was submitted and every transport call succeeded, both are sequences with
  exactly one entry per batch, in submission order: entry \<open>i\<close> is the payload,
  respectively the jqXHR object, of the \<open>i\<close>-th request.
\<close>

theorem response_fields_single_or_per_batch:
  assumes "async cfg" and "1 \<le> batchSize cfg" and "1 \<le> concurrency cfg"
      and "stateAfter cfg e q evs = Some s" and "dfd s \<noteq> DfdPending"
  shows "\<exists>r. (dfd s = DfdResolved r \<or> dfd s = DfdRejected r) \<and>
           (max 1 (ceilDiv (length q) (nat (batchSize cfg))) = 1 \<longrightarrow>
              \<not> isArr (httpData r) \<and> \<not> isArr (xhrRequest r)) \<and>
           (1 < max 1 (ceilDiv (length q) (nat (batchSize cfg))) \<and>
            (\<forall>i ts err. Complete i (Fail ts err) \<notin> set evs) \<longrightarrow>
              httpData r = Arr (map (dataOf evs) [0..<max 1 (ceilDiv (length q) (nat (batchSize cfg)))]) \<and>
              xhrRequest r = Arr (map Xhr [0..<max 1 (ceilDiv (length q) (nat (batchSize cfg)))]))"
proof -
  have "asyncRun cfg e (asyncDispatch cfg q) evs = Some s"
    using assms(1,4) by (simp add: stateAfter_async)
  from response_fields_async[OF assms(2,3) this assms(5)] show ?thesis .
qed

text \<open>
  The claim as stated fails: two batches, both successful, the second completing first.
  The fields list the payloads in submission order, not in completion order.
\<close>

theorem multi_batch_fields_follow_submission_order:
  "map_option dfd (stateAfter oneAtATime sampleEnv [''a'', ''b'']
      [Complete 1 (Done ''second'' ''success''), Complete 0 (Done ''first'' ''success'')]) =
   Some (DfdResolved \<lparr> status = ''success'', message = Str ''Update Successful.'',
                       httpData = Arr [Doc ''first'', Doc ''second''],
                       xhrRequest = Arr [Xhr 0, Xhr 1] \<rparr>)"
proof -
  have a: "async oneAtATime" by (simp add: oneAtATime_def defaults_def)
  have "asyncRun oneAtATime sampleEnv (asyncDispatch oneAtATime [''a'', ''b''])
      [Complete 1 (Done ''second'' ''success''), Complete 0 (Done ''first'' ''success'')] \<noteq> None"
    by (simp add: sched_eval)
  then obtain s where r: "asyncRun oneAtATime sampleEnv (asyncDispatch oneAtATime [''a'', ''b''])
      [Complete 1 (Done ''second'' ''success''), Complete 0 (Done ''first'' ''success'')] = Some s"
    by blast
  have ds: "dfd s = DfdResolved \<lparr> status = ''success'', message = Str ''Update Successful.'',
                       httpData = Arr [Doc ''first'', Doc ''second''],
                       xhrRequest = Arr [Xhr 0, Xhr 1] \<rparr>"
    using sample_two_done[OF r]
      aggregate_done_done[of sampleEnv "''first''" "''success''" "''second''" "''success''"]
    by (simp add: sampleEnv_def)
  show ?thesis by (simp only: stateAfter_async[OF a] r option.map ds)
qed

theorem response_fields_single_or_per_batch_witness:
  "async oneAtATime \<and> 1 \<le> batchSize oneAtATime \<and> 1 \<le> concurrency oneAtATime \<and>
   (\<exists>s. stateAfter oneAtATime sampleEnv [''a'', ''b'']
           [Complete 1 (Done ''second'' ''success''), Complete 0 (Done ''first'' ''success'')] = Some s \<and>
        dfd s \<noteq> DfdPending \<and>
        (\<exists>r. (dfd s = DfdResolved r \<or> dfd s = DfdRejected r) \<and>
             httpData r = Arr [Doc ''first'', Doc ''second''] \<and>
             xhrRequest r = Arr [Xhr 0, Xhr 1])) \<and>
   async defaults \<and> 1 \<le> batchSize defaults \<and> 1 \<le> concurrency defaults \<and>
   (\<exists>s. stateAfter defaults sampleEnv [''a'', ''b'']
           [Complete 0 (Done ''only'' ''success'')] = Some s \<and>
        dfd s \<noteq> DfdPending \<and>
        (\<exists>r. (dfd s = DfdResolved r \<or> dfd s = DfdRejected r) \<and>
             \<not> isArr (httpData r) \<and> \<not> isArr (xhrRequest r)))"
proof -
  let ?evs = "[Complete 1 (Done ''second'' ''success''), Complete 0 (Done ''first'' ''success'')]"
  have b: "1 \<le> batchSize oneAtATime" and c: "1 \<le> concurrency oneAtATime" and a: "async oneAtATime"
    by (simp_all add: oneAtATime_def defaults_def)
  have "asyncRun oneAtATime sampleEnv (asyncDispatch oneAtATime [''a'', ''b'']) ?evs \<noteq> None"
    by (simp add: sched_eval)
  then obtain s where r0: "asyncRun oneAtATime sampleEnv (asyncDispatch oneAtATime [''a'', ''b'']) ?evs = Some s"
    by blast
  then have r: "stateAfter oneAtATime sampleEnv [''a'', ''b''] ?evs = Some s"
    by (simp only: stateAfter_async[OF a])
  have n: "max 1 (ceilDiv (length [''a'', ''b'']) (nat (batchSize oneAtATime))) = 2"
    by (simp add: ceilDiv_def oneAtATime_def defaults_def)
  have d: "dfd s \<noteq> DfdPending"
    using asyncRun_facts(4)[OF b c r0] n by (simp add: batchCount_ceilDiv)
  have nf: "\<forall>i ts err. Complete i (Fail ts err) \<notin> set ?evs" by simp
  have dt: "map (dataOf ?evs) [0..<2] = [Doc ''first'', Doc ''second'']"
    "map Xhr [0..<2] = [Xhr 0, Xhr 1]"
    by (simp_all add: dataOf_def upt_0_2)
  have two: "\<exists>r. (dfd s = DfdResolved r \<or> dfd s = DfdRejected r) \<and>
             httpData r = Arr [Doc ''first'', Doc ''second''] \<and>
             xhrRequest r = Arr [Xhr 0, Xhr 1]"
    using response_fields_single_or_per_batch[OF a b c r d] nf unfolding n dt
    by (metis one_less_numeral_iff semiring_norm(76))
  have b1: "1 \<le> batchSize defaults" and c1: "1 \<le> concurrency defaults" and a1: "async defaults"
    by (simp_all add: defaults_def)
  have "asyncRun defaults sampleEnv (asyncDispatch defaults [''a'', ''b''])
           [Complete 0 (Done ''only'' ''success'')] \<noteq> None"
    by (simp add: sched_eval)
  then obtain s1 where r10: "asyncRun defaults sampleEnv (asyncDispatch defaults [''a'', ''b''])
           [Complete 0 (Done ''only'' ''success'')] = Some s1"
    by blast
  then have r1: "stateAfter defaults sampleEnv [''a'', ''b''] [Complete 0 (Done ''only'' ''success'')] = Some s1"
    by (simp only: stateAfter_async[OF a1])
  have n1: "max 1 (ceilDiv (length [''a'', ''b'']) (nat (batchSize defaults))) = 1"
    by (simp add: ceilDiv_def defaults_def)
  have d1: "dfd s1 \<noteq> DfdPending"
    using asyncRun_facts(4)[OF b1 c1 r10] n1 by (simp add: batchCount_ceilDiv)
  have one: "\<exists>r. (dfd s1 = DfdResolved r \<or> dfd s1 = DfdRejected r) \<and>
             \<not> isArr (httpData r) \<and> \<not> isArr (xhrRequest r)"
    using response_fields_single_or_per_batch[OF a1 b1 c1 r1 d1] unfolding n1 by blast
  show ?thesis using a b c r d two a1 b1 c1 r1 d1 one by blast
qed

section \<open>Application-level errors\<close>

lemma application_error_async:
  assumes "1 \<le> batchSize cfg" and "1 \<le> concurrency cfg"
      and "asyncRun cfg e (asyncDispatch cfg q) evs = Some s" and "dfd s \<noteq> DfdPending"
      and "\<forall>i ts err. Complete i (Fail ts err) \<notin> set evs"
  shows "(filter (doesMsgHaveError e)
            (map (dataOf evs) [0..<max 1 (ceilDiv (length q) (nat (batchSize cfg)))]) = [] \<longrightarrow>
            (\<exists>r. dfd s = DfdResolved r \<and> status r = ''success'' \<and>
                 message r = Str ''Update Successful.'')) \<and>
         (filter (doesMsgHaveError e)
            (map (dataOf evs) [0..<max 1 (ceilDiv (length q) (nat (batchSize cfg)))]) \<noteq> [] \<longrightarrow>
            (\<exists>r. dfd s = DfdRejected r \<and> status r = ''error'' \<and>
                 message r = getMsgError e (last (filter (doesMsgHaveError e)
                   (map (dataOf evs) [0..<max 1 (ceilDiv (length q) (nat (batchSize cfg)))])))))"
proof -
  define N where "N = max 1 (ceilDiv (length q) (nat (batchSize cfg)))"
  define errs where "errs = filter (doesMsgHaveError e) (map (dataOf evs) [0..<N])"
  define h where "h = (if N = 1 then dataOf evs 0 else Arr (map (dataOf evs) [0..<N]))"
  define x where "x = (if N = 1 then Xhr 0 else Arr (map Xhr [0..<N]))"
  have eq: "dfd s =
     (if errs = []
      then DfdResolved \<lparr> status = ''success'', message = Str ''Update Successful.'',
             httpData = h, xhrRequest = x \<rparr>
      else DfdRejected \<lparr> status = ''error'', message = getMsgError e (last errs),
             httpData = h, xhrRequest = x \<rparr>)"
    using completed_all_done[OF assms N_def]
    unfolding errs_def[symmetric] h_def[symmetric] x_def[symmetric] .
  have "(errs = [] \<longrightarrow> (\<exists>r. dfd s = DfdResolved r \<and> status r = ''success'' \<and>
                 message r = Str ''Update Successful.'')) \<and>
        (errs \<noteq> [] \<longrightarrow> (\<exists>r. dfd s = DfdRejected r \<and> status r = ''error'' \<and>
                 message r = getMsgError e (last errs)))"
    unfolding eq by simp
  then show ?thesis unfolding errs_def N_def .
qed

text \<open>
  Claim C8, amended. With asynchronous requests, when a dispatch with a valid
  configuration has completed and no transport call failed: if no payload encodes an
  application-level error, the promise is resolved with status success and the message
  \<open>Update Successful.\<close>; otherwise it is rejected with status error, and the message is
  that of the last payload, in submission order, that encodes an error.
\<close>

theorem application_error_last_in_submission_order:
  assumes "async cfg" and "1 \<le> batchSize cfg" and "1 \<le> concurrency cfg"
      and "stateAfter cfg e q evs = Some s" and "dfd s \<noteq> DfdPending"
      and "\<forall>i ts err. Complete i (Fail ts err) \<notin> set evs"
  shows "(filter (doesMsgHaveError e)
            (map (dataOf evs) [0..<max 1 (ceilDiv (length q) (nat (batchSize cfg)))]) = [] \<longrightarrow>
            (\<exists>r. dfd s = DfdResolved r \<and> status r = ''success'' \<and>
                 message r = Str ''Update Successful.'')) \<and>
         (filter (doesMsgHaveError e)
            (map (dataOf evs) [0..<max 1 (ceilDiv (length q) (nat (batchSize cfg)))]) \<noteq> [] \<longrightarrow>
            (\<exists>r. dfd s = DfdRejected r \<and> status r = ''error'' \<and>
                 message r = getMsgError e (last (filter (doesMsgHaveError e)
                   (map (dataOf evs) [0..<max 1 (ceilDiv (length q) (nat (batchSize cfg)))])))))"
proof -
  have "asyncRun cfg e (asyncDispatch cfg q) evs = Some s"
    using assms(1,4) by (simp add: stateAfter_async)
  from application_error_async[OF assms(2,3) this assms(5,6)] show ?thesis .
qed

text \<open>
  The claim as stated fails: two batches complete in submission order, both payloads
  encode an error. The message is that of the second payload, not of the first error found.
\<close>

theorem application_error_message_is_the_last:
  "map_option dfd (stateAfter oneAtATime sampleEnv [''a'', ''b'']
      [Complete 0 (Done ''ERR first'' ''success''), Complete 1 (Done ''ERR second'' ''success'')]) =
   Some (DfdRejected \<lparr> status = ''error'', message = Str ''ERR second'',
                       httpData = Arr [Doc ''ERR first'', Doc ''ERR second''],
                       xhrRequest = Arr [Xhr 0, Xhr 1] \<rparr>)"
proof -
  have a: "async oneAtATime" by (simp add: oneAtATime_def defaults_def)
  have "asyncRun oneAtATime sampleEnv (asyncDispatch oneAtATime [''a'', ''b''])
      [Complete 0 (Done ''ERR first'' ''success''), Complete 1 (Done ''ERR second'' ''success'')] \<noteq> None"
    by (simp add: sched_eval)
  then obtain s where r: "asyncRun oneAtATime sampleEnv (asyncDispatch oneAtATime [''a'', ''b''])
      [Complete 0 (Done ''ERR first'' ''success''), Complete 1 (Done ''ERR second'' ''success'')] = Some s"
    by blast
  have ds: "dfd s = DfdRejected \<lparr> status = ''error'', message = Str ''ERR second'',
                       httpData = Arr [Doc ''ERR first'', Doc ''ERR second''],
                       xhrRequest = Arr [Xhr 0, Xhr 1] \<rparr>"
    using sample_two_done[OF r]
      aggregate_done_done[of sampleEnv "''ERR first''" "''success''" "''ERR second''" "''success''"]
    by (simp add: sampleEnv_def)
  show ?thesis by (simp only: stateAfter_async[OF a] r option.map ds)
qed

theorem application_error_last_in_submission_order_witness:
  "async oneAtATime \<and> 1 \<le> batchSize oneAtATime \<and> 1 \<le> concurrency oneAtATime \<and>
   (\<exists>s. stateAfter oneAtATime sampleEnv [''a'', ''b'']
           [Complete 1 (Done ''fine'' ''success''), Complete 0 (Done ''ERR duplicate key'' ''success'')] = Some s \<and>
        dfd s \<noteq> DfdPending \<and>
        (\<exists>r. dfd s = DfdRejected r \<and> status r = ''error'' \<and> message r = Str ''ERR duplicate key'')) \<and>
   (\<exists>s. stateAfter oneAtATime sampleEnv [''a'', ''b'']
           [Complete 1 (Done ''fine'' ''success''), Complete 0 (Done ''good'' ''success'')] = Some s \<and>
        dfd s \<noteq> DfdPending \<and>
        (\<exists>r. dfd s = DfdResolved r \<and> status r = ''success'' \<and> message r = Str ''Update Successful.''))"
proof -
  let ?evs = "[Complete 1 (Done ''fine'' ''success''), Complete 0 (Done ''ERR duplicate key'' ''success'')]"
  let ?evs1 = "[Complete 1 (Done ''fine'' ''success''), Complete 0 (Done ''good'' ''success'')]"
  have b: "1 \<le> batchSize oneAtATime" and c: "1 \<le> concurrency oneAtATime" and a: "async oneAtATime"
    by (simp_all add: oneAtATime_def defaults_def)
  have n: "max 1 (ceilDiv (length [''a'', ''b'']) (nat (batchSize oneAtATime))) = 2"
    by (simp add: ceilDiv_def oneAtATime_def defaults_def)
  have "asyncRun oneAtATime sampleEnv (asyncDispatch oneAtATime [''a'', ''b'']) ?evs \<noteq> None"
    by (simp add: sched_eval)
  then obtain s where r0: "asyncRun oneAtATime sampleEnv (asyncDispatch oneAtATime [''a'', ''b'']) ?evs = Some s"
    by blast
  then have r: "stateAfter oneAtATime sampleEnv [''a'', ''b''] ?evs = Some s"
    by (simp only: stateAfter_async[OF a])
  have d: "dfd s \<noteq> DfdPending"
    using asyncRun_facts(4)[OF b c r0] n by (simp add: batchCount_ceilDiv)
  have nf: "\<forall>i ts err. Complete i (Fail ts err) \<notin> set ?evs" by simp
  have er: "filter (doesMsgHaveError sampleEnv) (map (dataOf ?evs) [0..<2]) = [Doc ''ERR duplicate key'']"
    by (simp add: dataOf_def sampleEnv_def upt_0_2)
  have g: "getMsgError sampleEnv (Doc ''ERR duplicate key'') = Str ''ERR duplicate key''"
    by (simp add: sampleEnv_def)
  have one: "\<exists>r. dfd s = DfdRejected r \<and> status r = ''error'' \<and> message r = Str ''ERR duplicate key''"
    using application_error_last_in_submission_order[OF a b c r d nf] unfolding n er
    by (simp add: g)
  have "asyncRun oneAtATime sampleEnv (asyncDispatch oneAtATime [''a'', ''b'']) ?evs1 \<noteq> None"
    by (simp add: sched_eval)
  then obtain s1 where r10: "asyncRun oneAtATime sampleEnv (asyncDispatch oneAtATime [''a'', ''b'']) ?evs1 = Some s1"
    by blast
  then have r1: "stateAfter oneAtATime sampleEnv [''a'', ''b''] ?evs1 = Some s1"
    by (simp only: stateAfter_async[OF a])
  have d1: "dfd s1 \<noteq> DfdPending"
    using asyncRun_facts(4)[OF b c r10] n by (simp add: batchCount_ceilDiv)
  have nf1: "\<forall>i ts err. Complete i (Fail ts err) \<notin> set ?evs1" by simp
  have er1: "filter (doesMsgHaveError sampleEnv) (map (dataOf ?evs1) [0..<2]) = []"
    by (simp add: dataOf_def sampleEnv_def upt_0_2)
  have two: "\<exists>r. dfd s1 = DfdResolved r \<and> status r = ''success'' \<and> message r = Str ''Update Successful.''"
    using application_error_last_in_submission_order[OF a b c r1 d1 nf1] unfolding n er1
    by simp
  show ?thesis using a b c r d one r1 d1 two by blast
qed

section \<open>What the entry point writes in the store\<close>

lemma agree_refl: "agree n S h h"
  by (simp add: agree_def)

lemma agree_update:
  assumes "n \<le> a \<or> a \<in> S"
  shows "agree n S h (h[a := ob])"
proof -
  have "h[a := ob] ! b = h ! b" if "b < n" "b \<notin> S" for b
  proof -
    have "a \<noteq> b" using assms that by auto
    then show ?thesis by simp
  qed
  then show ?thesis by (simp add: agree_def)
qed

lemma agree_writeProp: "n \<le> a \<or> a \<in> S \<Longrightarrow> agree n S h (writeProp h a k v)"
  by (simp add: writeProp_def agree_update)

lemma length_writeProp [simp]: "length (writeProp h a k v) = length h"
  by (simp add: writeProp_def)

lemma agree_pushMethod:
  assumes "n \<le> opt \<or> opt \<in> S" and "n \<le> upd \<or> upd \<in> S"
  shows "agree n S h (pushMethod env h opt upd t)"
proof (cases "t = []")
  case True
  then show ?thesis by (simp add: pushMethod_def agree_refl)
next
  case False
  define m where \<open>m = ''<Method ID="'' @ toStr env h (readProp h opt ''counter'') @ ''" Cmd="'' @
                 toStr env h (readProp h opt ''updateType'') @ ''">'' @ t @ ''</Method>''\<close>
  define h1 where "h1 = (case arrayAt h (VRef upd) of
                     Some xs \<Rightarrow> h[upd := OArr (xs @ [VStr m])] | None \<Rightarrow> h)"
  have eq: "pushMethod env h opt upd t = writeProp h1 opt ''counter'' (increment (readProp h1 opt ''counter''))"
    by (simp only: pushMethod_def Let_def m_def h1_def False if_True not_False_eq_True)
  have a1: "agree n S h h1"
    unfolding h1_def using assms(2) by (auto split: option.split simp: agree_update agree_refl)
  have l1: "length h1 = length h"
    unfolding h1_def by (simp split: option.split)
  have a2: "agree n S h1 (writeProp h1 opt ''counter'' (increment (readProp h1 opt ''counter'')))"
    using assms(1) by (rule agree_writeProp)
  show ?thesis unfolding eq using a1 a2 l1 by (auto simp: agree_def)
qed

lemma length_pushMethod [simp]: "length (pushMethod env h opt upd t) = length h"
  by (simp add: pushMethod_def Let_def split: option.split)

lemma length_processArrayOfObjects [simp]:
  "length (processArrayOfObjects env h opt upd xs) = length h"
  by (induction xs arbitrary: h) simp_all

lemma agree_processArrayOfObjects:
  assumes "n \<le> opt \<or> opt \<in> S" and "n \<le> upd \<or> upd \<in> S"
  shows "agree n S h (processArrayOfObjects env h opt upd xs)"
proof (induction xs arbitrary: h)
  case Nil
  then show ?case by (simp add: agree_refl)
next
  case (Cons x xs)
  have a: "agree n S h (pushMethod env h opt upd (fieldsOf env h x))"
    using assms by (rule agree_pushMethod)
  have b: "agree n S (pushMethod env h opt upd (fieldsOf env h x))
             (processArrayOfObjects env (pushMethod env h opt upd (fieldsOf env h x)) opt upd xs)"
    by (rule Cons.IH)
  show ?case using a b by (auto simp: agree_def)
qed

lemma agree_processArrayOfArrays:
  assumes "n \<le> opt \<or> opt \<in> S" and "n \<le> upd \<or> upd \<in> S"
  shows "agree n S h (processArrayOfArrays env h opt upd xs)"
  unfolding processArrayOfArrays_def using assms by (rule agree_pushMethod)

lemma length_processArrayOfArrays [simp]:
  "length (processArrayOfArrays env h opt upd xs) = length h"
  by (simp add: processArrayOfArrays_def)

lemma getProp_setProp: "getProp (setProp ps k v) k' = (if k' = k then v else getProp ps k')"
  by (induction ps) (auto simp: getProp_def)

lemma propsAt_writeProp:
  "a < length h \<Longrightarrow> propsAt (writeProp h a k v) a = setProp (propsAt h a) k v"
  by (simp add: propsAt_def writeProp_def)

lemma readProp_writeProp:
  "a < length h \<Longrightarrow> readProp (writeProp h a k v) a k' = (if k' = k then v else readProp h a k')"
  by (simp add: readProp_def propsAt_writeProp getProp_setProp)

lemma readProp_append: "a < length h \<Longrightarrow> readProp (h @ h') a k = readProp h a k"
  by (simp add: readProp_def propsAt_def nth_append)

lemma arrayAt_Some: "arrayAt h v = Some xs \<longleftrightarrow> (\<exists>a. v = VRef a \<and> a < length h \<and> h ! a = OArr xs)"
  by (auto simp: arrayAt_def split: hval.splits hobj.splits)

lemma getUpdateArray_frame:
  assumes g: "getUpdateArray env h0 opt = Inr (h', upd)" and o: "opt < length h0"
  shows "upd = length h0 \<and> length h0 < length h' \<and>
         (\<forall>b < length h0. b \<noteq> opt \<longrightarrow>
            h' ! b = h0 ! b \<or>
            (\<not> vtruthy (readProp h0 opt ''updates'') \<and> vtruthy (readProp h0 opt ''ID'') \<and>
             readProp h0 opt ''valuepairs'' = VRef b \<and> (\<exists>xs. h0 ! b = OArr xs))) \<and>
         (\<forall>vp xs. \<not> vtruthy (readProp h0 opt ''updates'') \<and> vtruthy (readProp h0 opt ''ID'') \<and>
             readProp h0 opt ''valuepairs'' = VRef vp \<and> vp < length h0 \<and> vp \<noteq> opt \<and> h0 ! vp = OArr xs \<longrightarrow>
             h' ! vp = OArr (xs @ [VRef (Suc (length h0))]) \<and>
             Suc (length h0) < length h' \<and>
             h' ! Suc (length h0) = OArr [VStr ''ID'', readProp h0 opt ''ID''])"
proof -
  define h where "h = h0 @ [OArr []]"
  define u where "u = length h0"
  have rp: "readProp h opt k = readProp h0 opt k" for k
    unfolding h_def using o by (rule readProp_append)
  have lh: "length h = Suc (length h0)" by (simp add: h_def)
  have hb: "h ! b = h0 ! b" if "b < length h0" for b
    using that by (simp add: h_def nth_append)
  define compat where "compat \<longleftrightarrow> \<not> vtruthy (readProp h0 opt ''updates'') \<and>
     vtruthy (readProp h0 opt ''ID'') \<and> vtruthy (readProp h0 opt ''valuepairs'')"
  have unf: "getUpdateArray env h0 opt =
     (if compat
         then (case readProp h0 opt ''valuepairs'' of
                 VRef vp \<Rightarrow>
                   (case arrayAt h (VRef vp) of
                      Some xs \<Rightarrow>
                        Inr (processArrayOfArrays env
                               ((h @ [OArr [VStr ''ID'', readProp h0 opt ''ID'']])[vp := OArr (xs @ [VRef (length h)])])
                               opt u (xs @ [VRef (length h)]), u)
                    | None \<Rightarrow> Inl TypeError)
               | _ \<Rightarrow> Inl TypeError)
         else if typeof (readProp h0 opt ''updates'') = ''string''
         then Inr (h[u := OArr [readProp h0 opt ''updates'']], u)
         else (case arrayAt h (readProp h0 opt ''updates'') of
                 Some (x # xs) \<Rightarrow>
                   (if typeof x = ''object'' then Inr (processArrayOfObjects env h opt u (x # xs), u)
                    else if typeof x = ''string'' then Inr (h[u := OArr (x # xs)], u)
                    else if arrayAt h x \<noteq> None then Inr (processArrayOfArrays env h opt u (x # xs), u)
                    else Inr (h, u))
               | _ \<Rightarrow> Inr (h, u)))"
    unfolding getUpdateArray_def alloc_def Let_def prod.case h_def[symmetric] u_def[symmetric] rp
      compat_def ..
  show ?thesis
  proof (cases compat)
    case True
    then obtain vp xs where vp: "readProp h0 opt ''valuepairs'' = VRef vp"
        and ar: "arrayAt h (VRef vp) = Some xs"
      using g unfolding unf by (auto split: hval.splits option.splits)
    define h1 where "h1 = h @ [OArr [VStr ''ID'', readProp h0 opt ''ID'']]"
    define h2 where "h2 = h1[vp := OArr (xs @ [VRef (length h)])]"
    have res: "h' = processArrayOfArrays env h2 opt u (xs @ [VRef (length h)])" and uu: "upd = u"
      using g True vp ar unfolding unf h2_def h1_def by auto
    have vl: "vp < length h" "h ! vp = OArr xs" using ar by (simp_all add: arrayAt_Some)
    have l2: "length h2 = Suc (Suc (length h0))" by (simp add: h2_def h1_def lh)
    have ag: "agree (length h2) {opt, u} h2 h'"
      unfolding res by (rule agree_processArrayOfArrays) simp_all
    have same: "h' ! b = h2 ! b" if "b < length h2" "b \<noteq> opt" "b \<noteq> u" for b
      using ag that by (simp add: agree_def)
    have lh': "length h' = length h2" by (simp add: res)
    have fr: "h' ! b = h0 ! b \<or> (readProp h0 opt ''valuepairs'' = VRef b \<and> (\<exists>xs. h0 ! b = OArr xs))"
      if "b < length h0" "b \<noteq> opt" for b
    proof (cases "b = vp")
      case True
      then have "h0 ! b = OArr xs" using vl(2) hb[of b] that(1) by simp
      then show ?thesis using vp True by simp
    next
      case False
      have "h' ! b = h2 ! b" using that same l2 u_def by simp
      also have "\<dots> = h1 ! b" using False by (simp add: h2_def)
      also have "\<dots> = h0 ! b" using that by (simp add: h1_def h_def nth_append)
      finally show ?thesis by simp
    qed
    have ct: "h' ! vp' = OArr (xs' @ [VRef (Suc (length h0))]) \<and>
             Suc (length h0) < length h' \<and>
             h' ! Suc (length h0) = OArr [VStr ''ID'', readProp h0 opt ''ID'']"
      if "readProp h0 opt ''valuepairs'' = VRef vp'" "vp' < length h0" "vp' \<noteq> opt" "h0 ! vp' = OArr xs'"
      for vp' xs'
    proof -
      have e: "vp' = vp" using that(1) vp by simp
      have x: "xs' = xs" using that(2,4) vl(2) hb[of vp'] e by simp
      have "h' ! vp = h2 ! vp" using same[of vp] that(2,3) e l2 u_def by simp
      also have "\<dots> = OArr (xs @ [VRef (length h)])"
        using that(2) e by (simp add: h2_def h1_def lh)
      finally have a: "h' ! vp = OArr (xs @ [VRef (Suc (length h0))])" by (simp add: lh)
      have "h' ! Suc (length h0) = h2 ! Suc (length h0)"
        using same[of "Suc (length h0)"] o l2 u_def by simp
      also have "\<dots> = h1 ! Suc (length h0)" using that(2) e by (simp add: h2_def)
      also have "\<dots> = OArr [VStr ''ID'', readProp h0 opt ''ID'']"
        by (simp add: h1_def nth_append lh)
      finally show ?thesis using a e x lh' l2 by simp
    qed
    have c3: "\<not> vtruthy (readProp h0 opt ''updates'') \<and> vtruthy (readProp h0 opt ''ID'')"
      using True by (simp add: compat_def)
    show ?thesis using uu u_def lh' l2 fr ct c3 by auto
  next
    case False
    have ag: "agree (length h0) {opt} h h' \<and> length h \<le> length h' \<and> upd = u"
      using g False unfolding unf
      by (auto split: if_splits option.splits list.splits
               simp del: processArrayOfObjects.simps
               simp: agree_refl agree_update u_def agree_processArrayOfObjects
                     agree_processArrayOfArrays)
    then have "h' ! b = h0 ! b" if "b < length h0" "b \<noteq> opt" for b
      using that hb[of b] by (simp add: agree_def)
    moreover have "\<not> (\<not> vtruthy (readProp h0 opt ''updates'') \<and> vtruthy (readProp h0 opt ''ID'') \<and>
             readProp h0 opt ''valuepairs'' = VRef vp)" for vp
      using False by (auto simp: compat_def)
    ultimately show ?thesis using ag lh u_def by auto
  qed
qed

lemma prepare_frame:
  assumes p: "prepare env h0 options = Inr (h', opt)"
  shows "opt = length h0 \<and> length h0 < length h' \<and>
         readProp h' opt ''_updates'' = VRef (Suc (length h0)) \<and>
         (\<forall>b < length h0.
            h' ! b = h0 ! b \<or>
            (\<not> vtruthy (getProp (mergedOptions h0 options) ''updates'') \<and>
             vtruthy (getProp (mergedOptions h0 options) ''ID'') \<and>
             getProp (mergedOptions h0 options) ''valuepairs'' = VRef b \<and>
             (\<exists>xs. h0 ! b = OArr xs))) \<and>
         (\<forall>vp xs. \<not> vtruthy (getProp (mergedOptions h0 options) ''updates'') \<and>
             vtruthy (getProp (mergedOptions h0 options) ''ID'') \<and>
             getProp (mergedOptions h0 options) ''valuepairs'' = VRef vp \<and>
             vp < length h0 \<and> h0 ! vp = OArr xs \<longrightarrow>
             h' ! vp = OArr (xs @ [VRef (length h0 + 2)]) \<and>
             length h0 + 2 < length h' \<and>
             h' ! (length h0 + 2) = OArr [VStr ''ID'', getProp (mergedOptions h0 options) ''ID''])"
proof -
  define merged where "merged = mergedOptions h0 options"
  define o' where "o' = length h0"
  define h1 where "h1 = h0 @ [OObj merged]"
  define webURL where "webURL = readProp h1 o' ''webURL''"
  define r2 where "r2 = (if \<not> vtruthy webURL then Inr (writeProp h1 o' ''webURL'' (VStr (siteUrl env)))
               else (case webURL of
                       VStr s \<Rightarrow> Inr (if last s \<noteq> CHR ''/'' then writeProp h1 o' ''webURL'' (VStr (s @ ''/''))
                                      else h1)
                     | _ \<Rightarrow> (Inl TypeError :: jserror + heap)))"
  have unf: "prepare env h0 options =
     (case r2 of
           Inl err \<Rightarrow> Inl err
         | Inr h2 \<Rightarrow>
             (case getUpdateArray env (writeProp h2 o' ''updateType''
                         (if vtruthy (readProp h2 o' ''batchCmd'') then readProp h2 o' ''batchCmd''
                          else readProp h2 o' ''updateType'')) o' of
                   Inl err \<Rightarrow> Inl err
                 | Inr (h4, upd) \<Rightarrow> Inr (writeProp h4 o' ''_updates'' (VRef upd), o')))"
    unfolding prepare_def alloc_def Let_def prod.case merged_def[symmetric] o'_def[symmetric]
      h1_def[symmetric] webURL_def[symmetric] r2_def[symmetric] ..
  obtain h2 where r2: "r2 = Inr h2"
    using p unfolding unf by (cases r2) auto
  define h3 where "h3 = writeProp h2 o' ''updateType''
                         (if vtruthy (readProp h2 o' ''batchCmd'') then readProp h2 o' ''batchCmd''
                          else readProp h2 o' ''updateType'')"
  obtain h4 upd where g: "getUpdateArray env h3 o' = Inr (h4, upd)"
    and res: "h' = writeProp h4 o' ''_updates'' (VRef upd)" and oo: "opt = o'"
    using p unfolding unf r2 sum.case h3_def[symmetric]
    by (cases "getUpdateArray env h3 o'") auto
  have l1: "length h1 = Suc (length h0)" by (simp add: h1_def)
  have o1: "o' < length h1" by (simp add: l1 o'_def)
  have h2c: "h2 = h1 \<or> (\<exists>v. h2 = writeProp h1 o' ''webURL'' v)"
    using r2 unfolding r2_def by (auto split: if_splits hval.splits)
  have l2: "length h2 = Suc (length h0)" using h2c l1 by auto
  have l3: "length h3 = Suc (length h0)" by (simp add: h3_def l2)
  have p1: "propsAt h1 o' = merged" by (simp add: propsAt_def h1_def o'_def)
  have rd2: "readProp h2 o' k = getProp merged k" if "k \<noteq> ''webURL''" for k
    using h2c that o1 p1 by (auto simp: readProp_writeProp) (simp_all add: readProp_def)
  have rd3: "readProp h3 o' k = getProp merged k" if "k \<noteq> ''webURL''" "k \<noteq> ''updateType''" for k
    unfolding h3_def using that rd2 l2 by (simp add: readProp_writeProp o'_def)
  have b1: "h1 ! b = h0 ! b" if "b < length h0" for b
    using that by (simp add: h1_def nth_append)
  have b2: "h2 ! b = h0 ! b" if "b < length h0" for b
    using h2c that b1 by (auto simp: writeProp_def o'_def)
  have b3: "h3 ! b = h0 ! b" if "b < length h0" for b
    using that b2 by (simp add: h3_def writeProp_def o'_def)
  have o3: "o' < length h3" by (simp add: l3 o'_def)
  note gf = getUpdateArray_frame[OF g o3]
  have u: "upd = Suc (length h0)" using gf l3 by simp
  have l4: "Suc (length h0) < length h4" using gf l3 by simp
  have lh': "length h' = length h4" by (simp add: res)
  have bb: "h' ! b = h4 ! b" if "b \<noteq> o'" for b
    using that by (simp add: res writeProp_def)
  have ru: "readProp h' opt ''_updates'' = VRef (Suc (length h0))"
    unfolding res oo using l4 by (simp add: readProp_writeProp o'_def u)
  have rds: "readProp h3 o' ''updates'' = getProp merged ''updates''"
    "readProp h3 o' ''ID'' = getProp merged ''ID''"
    "readProp h3 o' ''valuepairs'' = getProp merged ''valuepairs''"
    by (simp_all add: rd3)
  have fr: "h' ! b = h0 ! b \<or>
            (\<not> vtruthy (getProp merged ''updates'') \<and> vtruthy (getProp merged ''ID'') \<and>
             getProp merged ''valuepairs'' = VRef b \<and> (\<exists>xs. h0 ! b = OArr xs))"
    if "b < length h0" for b
  proof -
    have "b < length h3" "b \<noteq> o'" using that l3 o'_def by simp_all
    then have "h4 ! b = h3 ! b \<or>
            (\<not> vtruthy (readProp h3 o' ''updates'') \<and> vtruthy (readProp h3 o' ''ID'') \<and>
             readProp h3 o' ''valuepairs'' = VRef b \<and> (\<exists>xs. h3 ! b = OArr xs))"
      using gf by blast
    then show ?thesis
      unfolding rds using bb[of b] b3[OF that] \<open>b \<noteq> o'\<close> by simp
  qed
  have ct: "h' ! vp = OArr (xs @ [VRef (length h0 + 2)]) \<and> length h0 + 2 < length h' \<and>
             h' ! (length h0 + 2) = OArr [VStr ''ID'', getProp merged ''ID'']"
    if "\<not> vtruthy (getProp merged ''updates'')" "vtruthy (getProp merged ''ID'')"
       "getProp merged ''valuepairs'' = VRef vp" "vp < length h0" "h0 ! vp = OArr xs"
    for vp xs
  proof -
    have "\<not> vtruthy (readProp h3 o' ''updates'') \<and> vtruthy (readProp h3 o' ''ID'') \<and>
             readProp h3 o' ''valuepairs'' = VRef vp \<and> vp < length h3 \<and> vp \<noteq> o' \<and> h3 ! vp = OArr xs"
      unfolding rds using that l3 b3[of vp] o'_def by simp
    then have "h4 ! vp = OArr (xs @ [VRef (Suc (length h3))]) \<and>
             Suc (length h3) < length h4 \<and>
             h4 ! Suc (length h3) = OArr [VStr ''ID'', readProp h3 o' ''ID'']"
      using gf by blast
    then show ?thesis
      unfolding rds l3 using bb[of vp] bb[of "Suc (Suc (length h0))"] that(4) lh' o'_def by simp
  qed
  show ?thesis
    unfolding merged_def[symmetric]
    using oo o'_def lh' l4 ru fr ct by auto
qed

lemma storeAfter_frame:
  assumes "readProp h opt ''_updates'' = VRef upd"
  shows "length (storeAfter h opt s) = length h \<and> (\<forall>b. b \<noteq> upd \<longrightarrow> storeAfter h opt s ! b = h ! b)"
  using assms by (simp add: storeAfter_def split: option.split)

lemma getProp_extendFrom_notin:
  "k \<notin> fst ` set src \<Longrightarrow> getProp (extendFrom t src) k = getProp t k"
proof (induction src arbitrary: t)
  case Nil
  then show ?case by simp
next
  case (Cons kv src)
  obtain k' v' where kv: "kv = (k', v')" by (cases kv)
  have "k \<noteq> k'" and "k \<notin> fst ` set src" using Cons.prems kv by auto
  then show ?case using Cons.IH kv by (simp add: getProp_setProp)
qed

lemma getProp_extendFrom_in:
  "distinct (map fst src) \<Longrightarrow> (k, v) \<in> set src \<Longrightarrow> v \<noteq> VUndefined \<Longrightarrow>
     getProp (extendFrom t src) k = v"
proof (induction src arbitrary: t)
  case Nil
  then show ?case by simp
next
  case (Cons kv src)
  obtain k' v' where kv: "kv = (k', v')" by (cases kv)
  show ?case
  proof (cases "(k, v) = (k', v')")
    case True
    then have "k \<notin> fst ` set src" using Cons.prems(1) kv by auto
    then show ?thesis using True kv Cons.prems(3)
      by (simp add: getProp_extendFrom_notin getProp_setProp)
  next
    case False
    then have "(k, v) \<in> set src" using Cons.prems(2) kv by auto
    moreover have "distinct (map fst src)" using Cons.prems(1) by simp
    ultimately show ?thesis using Cons.IH Cons.prems(3) kv by simp
  qed
qed

lemma mergedOptions_plain:
  assumes "a < length h" and "h ! a = OObj props" and "distinct (map fst props)"
  shows "''updates'' \<notin> fst ` set props \<Longrightarrow> getProp (mergedOptions h (VRef a)) ''updates'' = VStr []"
    and "(''ID'', idv) \<in> set props \<Longrightarrow> idv \<noteq> VUndefined \<Longrightarrow>
           getProp (mergedOptions h (VRef a)) ''ID'' = idv"
    and "(''valuepairs'', vpv) \<in> set props \<Longrightarrow> vpv \<noteq> VUndefined \<Longrightarrow>
           getProp (mergedOptions h (VRef a)) ''valuepairs'' = vpv"
proof -
  have f: "forInProps h (VRef a) = props" using assms(1,2) by (simp add: forInProps_def)
  have m: "getProp (mergedOptions h (VRef a)) k =
             getProp (extendFrom (extendFrom [] defaultsProps) props) k" if "k \<noteq> ''counter''" for k
    unfolding mergedOptions_def f using that by (simp add: getProp_setProp)
  have d: "getProp (extendFrom [] defaultsProps) ''updates'' = VStr []"
    by (simp add: defaultsProps_def getProp_def)
  show "''updates'' \<notin> fst ` set props \<Longrightarrow> getProp (mergedOptions h (VRef a)) ''updates'' = VStr []"
    by (simp add: m getProp_extendFrom_notin d)
  show "(''ID'', idv) \<in> set props \<Longrightarrow> idv \<noteq> VUndefined \<Longrightarrow>
           getProp (mergedOptions h (VRef a)) ''ID'' = idv"
    using assms(3) by (simp add: m getProp_extendFrom_in)
  show "(''valuepairs'', vpv) \<in> set props \<Longrightarrow> vpv \<noteq> VUndefined \<Longrightarrow>
           getProp (mergedOptions h (VRef a)) ''valuepairs'' = vpv"
    using assms(3) by (simp add: m getProp_extendFrom_in)
qed

section \<open>The caller's options are left alone, but for the valuepairs array\<close>

text \<open>
  Claim C10. When the entry point returns (and after any completions), every object the
  caller's store held before the call is as it was, the options object and its top-level
  fields in particular, with one exception: in the backwards-compatibility path (the
  merged \<open>updates\<close> is falsy, \<open>ID\<close> is truthy and \<open>valuepairs\<close> is an array) the caller's
  \<open>valuepairs\<close> array has one more element, a reference to the new array \<open>[ID, id]\<close>. For an
  options object without \<open>updates\<close> and with a truthy \<open>ID\<close> and an array \<open>valuepairs\<close> that
  path is taken.
\<close>

theorem options_untouched_except_valuepairs:
  assumes "updateListItems env e h0 options evs = Inr (Some h')"
  shows "length h0 \<le> length h' \<and>
     (\<forall>a props. options = VRef a \<and> a < length h0 \<and> h0 ! a = OObj props \<longrightarrow> h' ! a = OObj props) \<and>
     (\<forall>b < length h0.
        h' ! b = h0 ! b \<or>
        (\<not> vtruthy (getProp (mergedOptions h0 options) ''updates'') \<and>
         vtruthy (getProp (mergedOptions h0 options) ''ID'') \<and>
         getProp (mergedOptions h0 options) ''valuepairs'' = VRef b \<and>
         (\<exists>xs. h0 ! b = OArr xs \<and> h' ! b = OArr (xs @ [VRef (length h0 + 2)])) \<and>
         h' ! (length h0 + 2) = OArr [VStr ''ID'', getProp (mergedOptions h0 options) ''ID''])) \<and>
     (\<forall>a props idv vp xs.
        options = VRef a \<and> a < length h0 \<and> h0 ! a = OObj props \<and> distinct (map fst props) \<and>
        ''updates'' \<notin> fst ` set props \<and> (''ID'', idv) \<in> set props \<and> vtruthy idv \<and>
        (''valuepairs'', VRef vp) \<in> set props \<and> vp < length h0 \<and> h0 ! vp = OArr xs \<longrightarrow>
        h' ! vp = OArr (xs @ [VRef (length h0 + 2)]) \<and>
        h' ! (length h0 + 2) = OArr [VStr ''ID'', idv])"
proof -
  obtain h opt where p: "prepare env h0 options = Inr (h, opt)"
    and r: "map_option (storeAfter h opt)
              (stateAfter (optConfig env h opt) e (optQueue env h opt) evs) = Some h'"
    using assms unfolding updateListItems_def
    by (cases "prepare env h0 options") auto
  obtain s where h': "h' = storeAfter h opt s" using r by auto
  note pf = prepare_frame[OF p]
  have ru: "readProp h opt ''_updates'' = VRef (Suc (length h0))" using pf by blast
  note sf = storeAfter_frame[OF ru, of s]
  have len: "length h' = length h" using sf h' by simp
  have same: "h' ! b = h ! b" if "b \<noteq> Suc (length h0)" for b
    using sf h' that by simp
  have l: "length h0 \<le> length h'" using pf len by simp
  have fr: "h' ! b = h0 ! b \<or>
        (\<not> vtruthy (getProp (mergedOptions h0 options) ''updates'') \<and>
         vtruthy (getProp (mergedOptions h0 options) ''ID'') \<and>
         getProp (mergedOptions h0 options) ''valuepairs'' = VRef b \<and>
         (\<exists>xs. h0 ! b = OArr xs \<and> h' ! b = OArr (xs @ [VRef (length h0 + 2)])) \<and>
         h' ! (length h0 + 2) = OArr [VStr ''ID'', getProp (mergedOptions h0 options) ''ID''])"
    if b: "b < length h0" for b
  proof -
    have "h ! b = h0 ! b \<or>
            (\<not> vtruthy (getProp (mergedOptions h0 options) ''updates'') \<and>
             vtruthy (getProp (mergedOptions h0 options) ''ID'') \<and>
             getProp (mergedOptions h0 options) ''valuepairs'' = VRef b \<and>
             (\<exists>xs. h0 ! b = OArr xs))"
      using pf b by blast
    then show ?thesis
    proof
      assume "h ! b = h0 ! b"
      then show ?thesis using same[of b] b by simp
    next
      assume c: "\<not> vtruthy (getProp (mergedOptions h0 options) ''updates'') \<and>
             vtruthy (getProp (mergedOptions h0 options) ''ID'') \<and>
             getProp (mergedOptions h0 options) ''valuepairs'' = VRef b \<and>
             (\<exists>xs. h0 ! b = OArr xs)"
      then obtain xs where xs: "h0 ! b = OArr xs" by blast
      have "h ! b = OArr (xs @ [VRef (length h0 + 2)]) \<and>
             h ! (length h0 + 2) = OArr [VStr ''ID'', getProp (mergedOptions h0 options) ''ID'']"
        using pf c b xs by blast
      then show ?thesis using c xs same[of b] same[of "length h0 + 2"] b by simp
    qed
  qed
  have ob: "h' ! a = OObj props" if "options = VRef a" "a < length h0" "h0 ! a = OObj props" for a props
    using fr[OF that(2)] that(3) by auto
  have cp: "h' ! vp = OArr (xs @ [VRef (length h0 + 2)]) \<and>
        h' ! (length h0 + 2) = OArr [VStr ''ID'', idv]"
    if "options = VRef a" "a < length h0" "h0 ! a = OObj props" "distinct (map fst props)"
       "''updates'' \<notin> fst ` set props" "(''ID'', idv) \<in> set props" "vtruthy idv"
       "(''valuepairs'', VRef vp) \<in> set props" "vp < length h0" "h0 ! vp = OArr xs"
    for a props idv vp xs
  proof -
    have iu: "idv \<noteq> VUndefined" using that(7) by auto
    note mo = mergedOptions_plain[OF that(2,3,4)]
    have m1: "getProp (mergedOptions h0 options) ''updates'' = VStr []"
      using mo(1)[OF that(5)] that(1) by simp
    have m2: "getProp (mergedOptions h0 options) ''ID'' = idv"
      using mo(2)[OF that(6) iu] that(1) by simp
    have m3: "getProp (mergedOptions h0 options) ''valuepairs'' = VRef vp"
      using mo(3)[OF that(8)] that(1) by simp
    have "h ! vp = OArr (xs @ [VRef (length h0 + 2)]) \<and>
             h ! (length h0 + 2) = OArr [VStr ''ID'', getProp (mergedOptions h0 options) ''ID'']"
      using pf m1 m2 m3 that(7,9,10) by auto
    then show ?thesis using same[of vp] same[of "length h0 + 2"] that(9) m2 by simp
  qed
  show ?thesis using l ob fr cp by blast
qed

lemma sample_prepare_async:
  "(case prepare sampleHost sampleStore (VRef 0) of
      Inl err \<Rightarrow> False | Inr (h, opt) \<Rightarrow> async (optConfig sampleHost h opt))"
  by code_simp

lemma sample_prepare:
  "\<exists>h opt. prepare sampleHost sampleStore (VRef 0) = Inr (h, opt) \<and>
           async (optConfig sampleHost h opt)"
  using sample_prepare_async
  by (cases "prepare sampleHost sampleStore (VRef 0)") auto

theorem options_untouched_except_valuepairs_witness:
  "\<exists>h'. updateListItems sampleHost sampleEnv sampleStore (VRef 0) [] = Inr (Some h') \<and>
        h' ! 0 = sampleStore ! 0 \<and> h' ! 2 = sampleStore ! 2 \<and>
        h' ! 1 = OArr [VRef 2, VRef 5] \<and> h' ! 5 = OArr [VStr ''ID'', VNum 3]"
proof -
  obtain h opt where p: "prepare sampleHost sampleStore (VRef 0) = Inr (h, opt)"
    and a: "async (optConfig sampleHost h opt)"
    using sample_prepare by blast
  then obtain h' where r: "updateListItems sampleHost sampleEnv sampleStore (VRef 0) [] = Inr (Some h')"
    by (simp add: updateListItems_def stateAfter_async)
  note t = options_untouched_except_valuepairs[OF r]
  have l: "length sampleStore = 3" by (simp add: sampleStore_def)
  have s0: "sampleStore ! 0 = OObj [(''listName'', VStr ''Tasks''), (''ID'', VNum 3), (''valuepairs'', VRef 1)]"
    and s1: "sampleStore ! 1 = OArr [VRef 2]"
    and s2: "sampleStore ! 2 = OArr [VStr ''Title'', VStr ''New title'']"
    by (simp_all add: sampleStore_def)
  have a: "h' ! 0 = sampleStore ! 0"
    using t s0 l by simp
  have c: "h' ! 1 = OArr ([VRef 2] @ [VRef (length sampleStore + 2)]) \<and>
        h' ! (length sampleStore + 2) = OArr [VStr ''ID'', VNum 3]"
    using t s0 s1 l
    by (elim conjE allE[of _ 0] allE[of _ "[(''listName'', VStr ''Tasks''), (''ID'', VNum 3), (''valuepairs'', VRef 1)]"]
          allE[of _ "VNum 3"] allE[of _ 1] allE[of _ "[VRef 2]"]) simp
  have t3: "\<forall>b < length sampleStore.
        h' ! b = sampleStore ! b \<or>
        (\<not> vtruthy (getProp (mergedOptions sampleStore (VRef 0)) ''updates'') \<and>
         vtruthy (getProp (mergedOptions sampleStore (VRef 0)) ''ID'') \<and>
         getProp (mergedOptions sampleStore (VRef 0)) ''valuepairs'' = VRef b \<and>
         (\<exists>xs. sampleStore ! b = OArr xs \<and> h' ! b = OArr (xs @ [VRef (length sampleStore + 2)])) \<and>
         h' ! (length sampleStore + 2) =
           OArr [VStr ''ID'', getProp (mergedOptions sampleStore (VRef 0)) ''ID''])"
    using t by blast
  have vp: "getProp (mergedOptions sampleStore (VRef 0)) ''valuepairs'' = VRef 1"
    using mergedOptions_plain(3)[of 0 sampleStore _ "VRef 1"] s0 l by simp
  have b: "h' ! 2 = sampleStore ! 2"
    using t3[rule_format, of 2] vp l by simp
  show ?thesis using r a b c l by simp
qed

end
